theory Spec2Isabelle
  imports Main
begin

section \<open>Values, identifiers and errors\<close>

text \<open>
  An identifier is what \<^verbatim>\<open>Injector.get\<close> receives as \<^verbatim>\<open>Key\<close>: a class constructor or an
  \<^verbatim>\<open>InjectionToken\<close>. Both are JavaScript objects, compared by reference in the
  \<^verbatim>\<open>Map\<close> that is the registry; the natural number is that reference. A constructor carries the text
  that a template literal \<^verbatim>\<open>`${Key}`\<close> prints for it, a token carries \<^verbatim>\<open>_desc\<close>.
\<close>

datatype ident = Ctor nat string | Token nat string

text \<open>\<^verbatim>\<open>`${Key}`\<close>: \<^verbatim>\<open>InjectionToken.toString\<close> returns \<^verbatim>\<open>this._desc\<close>.\<close>

fun to_string :: "ident \<Rightarrow> string" where
  "to_string (Ctor _ src) = src"
| "to_string (Token _ desc) = desc"

text \<open>
  JavaScript values. \<open>VObj\<close> and \<open>VFun\<close> are references to ordinary objects and to function
  objects in the object store. \<open>VProxy p Key\<close> is the object built by
  \<^verbatim>\<open>new Proxy({}, {get ..., set ...})\<close> in \<^verbatim>\<open>Injector.get\<close>: \<open>p\<close> is the address of its target
  \<^verbatim>\<open>{}\<close>, and \<open>Key\<close> is the one variable that its two traps close over (besides the injector).
  Numbers are modelled as integers.
\<close>

datatype val =
    VUndefined
  | VNull
  | VBool bool
  | VNum int
  | VStr string
  | VFun nat
  | VObj nat
  | VProxy nat ident

text \<open>The \<^verbatim>\<open>typeof\<close> operator. A proxy of a non-callable target is an \<^verbatim>\<open>'object'\<close>.\<close>

fun typeof :: "val \<Rightarrow> string" where
  "typeof VUndefined = ''undefined''"
| "typeof VNull = ''object''"
| "typeof (VBool _) = ''boolean''"
| "typeof (VNum _) = ''number''"
| "typeof (VStr _) = ''string''"
| "typeof (VFun _) = ''function''"
| "typeof (VObj _) = ''object''"
| "typeof (VProxy _ _) = ''object''"

text \<open>ToBoolean, as in \<^verbatim>\<open>if (storeItem.instance)\<close>.\<close>

fun truthy :: "val \<Rightarrow> bool" where
  "truthy VUndefined = False"
| "truthy VNull = False"
| "truthy (VBool b) = b"
| "truthy (VNum n) = (n \<noteq> 0)"
| "truthy (VStr s) = (s \<noteq> [])"
| "truthy (VFun _) = True"
| "truthy (VObj _) = True"
| "truthy (VProxy _ _) = True"

text \<open>
  What a \<^verbatim>\<open>throw\<close> carries: \<open>Error msg\<close> is \<^verbatim>\<open>new Error(msg)\<close>, \<open>TypeError\<close> is the error of
  the language itself (a property of \<^verbatim>\<open>null\<close>, \<^verbatim>\<open>Reflect.get\<close> on a non-object), \<open>Thrown v\<close> is
  any other value thrown by a factory.
\<close>

datatype error = Error string | TypeError | Thrown val

section \<open>Factories\<close>

text \<open>\<^verbatim>\<open>GetOptions\<close>, after the destructuring \<^verbatim>\<open>{ singleton = true, params } = options\<close>.\<close>

record get_options =
  singleton :: bool
  params :: val

definition default_options :: get_options where
  "default_options = \<lparr>singleton = True, params = VUndefined\<rparr>"

text \<open>\<^verbatim>\<open>{ singleton: false }\<close>.\<close>

definition transient_options :: get_options where
  "transient_options = \<lparr>singleton = False, params = VUndefined\<rparr>"

text \<open>
  A \<^verbatim>\<open>ServiceFactory\<close> is arbitrary synchronous code \<^verbatim>\<open>(injector, params) => T\<close>. What it can
  do to the injector and to the objects of this model is: call \<^verbatim>\<open>injector.get\<close>, allocate an
  object, read or write a property of a value it holds, catch an error, throw, and return. The body
  of a factory is the tree of these actions; each continuation receives the value the action
  produced. (\<^verbatim>\<open>IInjector\<close>, the type of the first argument, has no \<^verbatim>\<open>add\<close>.)
\<close>

datatype fprog =
    Return val
  | Throw error
  | Resolve ident get_options "val \<Rightarrow> fprog"
  | New "(string \<times> val) list" "val \<Rightarrow> fprog"
  | ReadProp val string "val \<Rightarrow> fprog"
  | WriteProp val string val fprog
  | TryCatch fprog "error \<Rightarrow> fprog" "val \<Rightarrow> fprog"

section \<open>The store\<close>

text \<open>\<^verbatim>\<open>StoreItem\<close> of \<^verbatim>\<open>types.d.ts\<close>; the empty \<^verbatim>\<open>instance\<close> is \<^verbatim>\<open>null\<close>.\<close>

record store_item =
  initialized :: bool
  factory :: "val \<Rightarrow> fprog"
  instance_slot :: val

text \<open>
  History of a run, kept beside the program state and read by no function below:
  \<open>Called a sing\<close> is appended where \<^verbatim>\<open>storeItem.factory(this, params)\<close> is called on the
  store item at address \<open>a\<close> (\<open>sing\<close> tells line 100 from line 67), \<open>Stored a\<close> where
  \<^verbatim>\<open>storeItem.instance = ...\<close> is executed.
\<close>

datatype event = Called nat bool | Stored nat

text \<open>
  The state: the \<^verbatim>\<open>_registry\<close> map, whose values are references to store items (two keys may
  hold the same reference); the store items by address; the properties of the objects by address;
  and the two allocation counters (an address at or above its counter is not allocated yet).
\<close>

record state =
  registry :: "ident \<rightharpoonup> nat"
  items :: "nat \<Rightarrow> store_item"
  next_item :: nat
  objs :: "nat \<Rightarrow> (string \<rightharpoonup> val)"
  next_obj :: nat
  trace :: "event list"

type_synonym outcome = "((error + val) \<times> state) option"

text \<open>\<^verbatim>\<open>new Injector()\<close>: an empty registry.\<close>

definition new_injector :: state where
  "new_injector =
     \<lparr>registry = Map.empty,
      items = (\<lambda>_. \<lparr>initialized = False, factory = (\<lambda>_. Return VUndefined), instance_slot = VNull\<rparr>),
      next_item = 0,
      objs = (\<lambda>_. Map.empty),
      next_obj = 0,
      trace = []\<rparr>"

section \<open>Injector.add\<close>

text \<open>
  Lines 33-43. One new store item; \<^verbatim>\<open>_registry.set(token, storeItem)\<close> when a token is given,
  then \<^verbatim>\<open>_registry.set(key, storeItem)\<close>.
\<close>

definition add :: "(val \<Rightarrow> fprog) \<Rightarrow> ident \<Rightarrow> ident option \<Rightarrow> state \<Rightarrow> state" where
  "add fac key token s =
     (let a = next_item s;
          storeItem = \<lparr>initialized = False, factory = fac, instance_slot = VNull\<rparr>;
          s1 = s\<lparr>items := (items s)(a := storeItem), next_item := Suc a\<rparr>;
          s2 = (case token of
                  None \<Rightarrow> s1
                | Some t \<Rightarrow> s1\<lparr>registry := (registry s1)(t \<mapsto> a)\<rparr>)
      in s2\<lparr>registry := (registry s2)(key \<mapsto> a)\<rparr>)"

section \<open>InjectionToken.find and Injector.get\<close>

text \<open>\<^verbatim>\<open>InjectionToken.find\<close>, lines 36-42 of \<^verbatim>\<open>injection-token.ts\<close>.\<close>

definition token_find :: "string \<Rightarrow> ident \<Rightarrow> state \<Rightarrow> error + nat" where
  "token_find desc this s =
     (case registry s this of
        None \<Rightarrow> Inl (Error (''Token '' @ desc @ '' is not registered''))
      | Some a \<Rightarrow> Inr a)"

text \<open>Lines 60-65 of \<^verbatim>\<open>injector.ts\<close>: the store item of \<^verbatim>\<open>Key\<close>, or the error thrown.\<close>

fun lookup :: "ident \<Rightarrow> state \<Rightarrow> error + nat" where
  "lookup (Token i desc) s = token_find desc (Token i desc) s"
| "lookup (Ctor i src) s =
     (case registry s (Ctor i src) of
        None \<Rightarrow> Inl (Error (to_string (Ctor i src) @ '' is not registered''))
      | Some a \<Rightarrow> Inr a)"

text \<open>\<^verbatim>\<open>new Proxy({}, ...)\<close>: a fresh empty target, and the proxy over it.\<close>

definition new_proxy :: "ident \<Rightarrow> state \<Rightarrow> val \<times> state" where
  "new_proxy Key s =
     (VProxy (next_obj s) Key,
      s\<lparr>objs := (objs s)(next_obj s := Map.empty), next_obj := Suc (next_obj s)\<rparr>)"

text \<open>An object literal or a \<^verbatim>\<open>new C(...)\<close> whose own data properties are \<open>props\<close>.\<close>

definition new_object :: "(string \<times> val) list \<Rightarrow> state \<Rightarrow> val \<times> state" where
  "new_object props s =
     (VObj (next_obj s),
      s\<lparr>objs := (objs s)(next_obj s := map_of props), next_obj := Suc (next_obj s)\<rparr>)"

definition log :: "event \<Rightarrow> state \<Rightarrow> state" where
  "log e s = s\<lparr>trace := trace s @ [e]\<rparr>"

definition set_initialized :: "nat \<Rightarrow> state \<Rightarrow> state" where
  "set_initialized a s = s\<lparr>items := (items s)(a := (items s a)\<lparr>initialized := True\<rparr>)\<rparr>"

definition set_instance :: "nat \<Rightarrow> val \<Rightarrow> state \<Rightarrow> state" where
  "set_instance a v s = s\<lparr>items := (items s)(a := (items s a)\<lparr>instance_slot := v\<rparr>)\<rparr>"

text \<open>
  Writing a data property \<open>prop\<close> on the object that receives it (the last steps of
  OrdinarySetWithOwnDescriptor of ECMA-262: \<^verbatim>\<open>Receiver.[[GetOwnProperty]]\<close>, then
  \<^verbatim>\<open>Receiver.[[DefineOwnProperty]]\<close> or CreateDataProperty). The proxies built by \<^verbatim>\<open>get\<close>
  have no \<^verbatim>\<open>getOwnPropertyDescriptor\<close> and no \<^verbatim>\<open>defineProperty\<close> trap, so for a proxy
  both operations fall through to its target \<^verbatim>\<open>{}\<close>. A receiver that is not an object makes the
  write return \<^verbatim>\<open>false\<close>.
\<close>

fun define_on_receiver :: "val \<Rightarrow> string \<Rightarrow> val \<Rightarrow> state \<Rightarrow> val \<times> state" where
  "define_on_receiver (VObj r) prop v s =
     (VBool True, s\<lparr>objs := (objs s)(r := (objs s r)(prop \<mapsto> v))\<rparr>)"
| "define_on_receiver (VFun r) prop v s =
     (VBool True, s\<lparr>objs := (objs s)(r := (objs s r)(prop \<mapsto> v))\<rparr>)"
| "define_on_receiver (VProxy p _) prop v s =
     (VBool True, s\<lparr>objs := (objs s)(p := (objs s p)(prop \<mapsto> v))\<rparr>)"
| "define_on_receiver _ prop v s = (VBool False, s)"

text \<open>Reading an own data property of an ordinary object; an absent one reads \<^verbatim>\<open>undefined\<close>.\<close>

definition own_property :: "nat \<Rightarrow> string \<Rightarrow> state \<Rightarrow> val" where
  "own_property a prop s = (case objs s a prop of None \<Rightarrow> VUndefined | Some v \<Rightarrow> v)"

text \<open>
  Sequencing of two steps of synchronous code: an exception of the first step, or a first step
  that does not return (\<open>None\<close>), skips the second.
\<close>

definition and_then :: "outcome \<Rightarrow> (val \<Rightarrow> state \<Rightarrow> outcome) \<Rightarrow> outcome" where
  "and_then m k =
     (case m of
        None \<Rightarrow> None
      | Some (Inl e, s') \<Rightarrow> Some (Inl e, s')
      | Some (Inr v, s') \<Rightarrow> k v s')"

text \<open>
  \<^verbatim>\<open>Injector.get\<close>, lines 58-102. \<open>call_factory\<close> stands for the call
  \<^verbatim>\<open>storeItem.factory(this, params)\<close>: it runs the body of the factory, which may call \<^verbatim>\<open>get\<close>
  again.
\<close>

definition get_body ::
  "(fprog \<Rightarrow> state \<Rightarrow> outcome) \<Rightarrow> ident \<Rightarrow> get_options \<Rightarrow> state \<Rightarrow> outcome" where
  "get_body call_factory Key options s =
     (case lookup Key s of
        Inl e \<Rightarrow> Some (Inl e, s)
      | Inr a \<Rightarrow>
          let storeItem = items s a in
          if \<not> singleton options then
            call_factory (factory storeItem (params options)) (log (Called a False) s)
          else if initialized storeItem then
            (if truthy (instance_slot storeItem) then Some (Inr (instance_slot storeItem), s)
             else (case new_proxy Key s of (p, s') \<Rightarrow> Some (Inr p, s')))
          else
            and_then
              (call_factory (factory storeItem (params options))
                 (log (Called a True) (set_initialized a s)))
              (\<lambda>v s'. Some (Inr v, log (Stored a) (set_instance a v s'))))"

text \<open>The message of lines 82 and 90.\<close>

definition instance_not_found :: "ident \<Rightarrow> error" where
  "instance_not_found Key = Error (''DI: instance of '' @ to_string Key @ '' not found'')"

text \<open>
  The \<^verbatim>\<open>get\<close> trap (lines 78-86) of the proxy for \<open>Key\<close>, and \<^verbatim>\<open>Reflect.get(target, prop, receiver)\<close>
  in general: \<^verbatim>\<open>target.[[Get]](prop, receiver)\<close>, which is the trap when \<open>target\<close> is such a
  proxy, and a \<^verbatim>\<open>TypeError\<close> when \<open>target\<close> is not an object. \<open>inj_get\<close> is \<^verbatim>\<open>injector.get\<close>,
  \<open>refl_get\<close> is \<^verbatim>\<open>Reflect.get\<close>.
\<close>

definition reflect_get_body ::
  "(ident \<Rightarrow> get_options \<Rightarrow> state \<Rightarrow> outcome) \<Rightarrow> (val \<Rightarrow> string \<Rightarrow> val \<Rightarrow> state \<Rightarrow> outcome) \<Rightarrow>
   val \<Rightarrow> string \<Rightarrow> val \<Rightarrow> state \<Rightarrow> outcome" where
  "reflect_get_body inj_get refl_get target prop receiver s =
     (case target of
        VObj a \<Rightarrow> Some (Inr (own_property a prop s), s)
      | VFun a \<Rightarrow> Some (Inr (own_property a prop s), s)
      | VProxy p Key \<Rightarrow>
          and_then (inj_get Key default_options s)
            (\<lambda>target' s'.
               if typeof target' \<noteq> ''object'' then Some (Inl (instance_not_found Key), s')
               else refl_get target' prop receiver s')
      | _ \<Rightarrow> Some (Inl TypeError, s))"

text \<open>
  The \<^verbatim>\<open>set\<close> trap (lines 87-93) and \<^verbatim>\<open>Reflect.set(target, prop, v, receiver)\<close>. On an ordinary
  object the property is a data property (present or not), so the value is written on
  \<open>receiver\<close>, whatever \<open>target\<close> is.
\<close>

definition reflect_set_body ::
  "(ident \<Rightarrow> get_options \<Rightarrow> state \<Rightarrow> outcome) \<Rightarrow> (val \<Rightarrow> string \<Rightarrow> val \<Rightarrow> val \<Rightarrow> state \<Rightarrow> outcome) \<Rightarrow>
   val \<Rightarrow> string \<Rightarrow> val \<Rightarrow> val \<Rightarrow> state \<Rightarrow> outcome" where
  "reflect_set_body inj_get refl_set target prop v receiver s =
     (case target of
        VObj a \<Rightarrow> (case define_on_receiver receiver prop v s of (ok, s') \<Rightarrow> Some (Inr ok, s'))
      | VFun a \<Rightarrow> (case define_on_receiver receiver prop v s of (ok, s') \<Rightarrow> Some (Inr ok, s'))
      | VProxy p Key \<Rightarrow>
          and_then (inj_get Key default_options s)
            (\<lambda>target' s'.
               if typeof target' \<noteq> ''object'' then Some (Inl (instance_not_found Key), s')
               else refl_set target' prop v receiver s')
      | _ \<Rightarrow> Some (Inl TypeError, s))"

text \<open>
  The member expressions \<^verbatim>\<open>x.prop\<close> and \<^verbatim>\<open>x.prop = v\<close> of a factory body: \<^verbatim>\<open>x.[[Get]](prop, x)\<close>
  and \<^verbatim>\<open>x.[[Set]](prop, v, x)\<close> on an object. \<^verbatim>\<open>x.prop\<close> throws a \<^verbatim>\<open>TypeError\<close> on \<^verbatim>\<open>undefined\<close>
  and \<^verbatim>\<open>null\<close> and reads \<^verbatim>\<open>undefined\<close> on the other primitive values; \<^verbatim>\<open>x.prop = v\<close> on a
  primitive value throws a \<^verbatim>\<open>TypeError\<close> (module code is strict).
\<close>

definition is_reference :: "val \<Rightarrow> bool" where
  "is_reference x \<longleftrightarrow> (case x of VObj _ \<Rightarrow> True | VFun _ \<Rightarrow> True | VProxy _ _ \<Rightarrow> True | _ \<Rightarrow> False)"

definition read_member ::
  "(val \<Rightarrow> string \<Rightarrow> val \<Rightarrow> state \<Rightarrow> outcome) \<Rightarrow> val \<Rightarrow> string \<Rightarrow> state \<Rightarrow> outcome" where
  "read_member refl_get x prop s =
     (if x = VUndefined \<or> x = VNull then Some (Inl TypeError, s)
      else if is_reference x then refl_get x prop x s
      else Some (Inr VUndefined, s))"

definition write_member ::
  "(val \<Rightarrow> string \<Rightarrow> val \<Rightarrow> val \<Rightarrow> state \<Rightarrow> outcome) \<Rightarrow> val \<Rightarrow> string \<Rightarrow> val \<Rightarrow> state \<Rightarrow> outcome" where
  "write_member refl_set x prop v s =
     (if is_reference x then refl_set x prop v x s else Some (Inl TypeError, s))"

text \<open>One action of a factory body, then the rest of the body.\<close>

definition run_body ::
  "(ident \<Rightarrow> get_options \<Rightarrow> state \<Rightarrow> outcome) \<Rightarrow> (fprog \<Rightarrow> state \<Rightarrow> outcome) \<Rightarrow>
   (val \<Rightarrow> string \<Rightarrow> val \<Rightarrow> state \<Rightarrow> outcome) \<Rightarrow> (val \<Rightarrow> string \<Rightarrow> val \<Rightarrow> val \<Rightarrow> state \<Rightarrow> outcome) \<Rightarrow>
   fprog \<Rightarrow> state \<Rightarrow> outcome" where
  "run_body inj_get rec_run refl_get refl_set prog s =
     (case prog of
        Return v \<Rightarrow> Some (Inr v, s)
      | Throw e \<Rightarrow> Some (Inl e, s)
      | Resolve Key options k \<Rightarrow> and_then (inj_get Key options s) (\<lambda>v. rec_run (k v))
      | New props k \<Rightarrow> (case new_object props s of (v, s') \<Rightarrow> rec_run (k v) s')
      | ReadProp x prop k \<Rightarrow> and_then (read_member refl_get x prop s) (\<lambda>v. rec_run (k v))
      | WriteProp x prop v rest \<Rightarrow> and_then (write_member refl_set x prop v s) (\<lambda>_. rec_run rest)
      | TryCatch body handler k \<Rightarrow>
          (case rec_run body s of
             None \<Rightarrow> None
           | Some (Inl e, s') \<Rightarrow> rec_run (handler e) s'
           | Some (Inr v, s') \<Rightarrow> rec_run (k v) s'))"

text \<open>
  The four parts call each other. The recursion is tied by a bound on the depth of the calls:
  \<open>exec n c\<close> performs the call \<open>c\<close> with at most \<open>n\<close> nested calls and is \<open>None\<close> when that is not
  enough. A call that is \<open>None\<close> for every \<open>n\<close> does not return.
\<close>

datatype call =
    CallGet ident get_options
  | CallRun fprog
  | CallReflectGet val string val
  | CallReflectSet val string val val

primrec exec :: "nat \<Rightarrow> call \<Rightarrow> state \<Rightarrow> outcome" where
  "exec 0 c s = None"
| "exec (Suc n) c s =
     (case c of
        CallGet Key options \<Rightarrow> get_body (\<lambda>p. exec n (CallRun p)) Key options s
      | CallRun prog \<Rightarrow>
          run_body (\<lambda>K opts. exec n (CallGet K opts)) (\<lambda>p. exec n (CallRun p))
            (\<lambda>t p r. exec n (CallReflectGet t p r)) (\<lambda>t p v r. exec n (CallReflectSet t p v r)) prog s
      | CallReflectGet target prop receiver \<Rightarrow>
          reflect_get_body (\<lambda>K opts. exec n (CallGet K opts))
            (\<lambda>t p r. exec n (CallReflectGet t p r)) target prop receiver s
      | CallReflectSet target prop v receiver \<Rightarrow>
          reflect_set_body (\<lambda>K opts. exec n (CallGet K opts))
            (\<lambda>t p v r. exec n (CallReflectSet t p v r)) target prop v receiver s)"

text \<open>
  \<open>get n\<close> is \<^verbatim>\<open>injector.get\<close>, \<open>run n\<close> the call of a factory, \<open>reflect_get n\<close> and
  \<open>reflect_set n\<close> are \<^verbatim>\<open>Reflect.get\<close> and \<^verbatim>\<open>Reflect.set\<close>, each within \<open>n\<close> nested calls.
\<close>

definition get :: "nat \<Rightarrow> ident \<Rightarrow> get_options \<Rightarrow> state \<Rightarrow> outcome" where
  "get n Key options s = exec n (CallGet Key options) s"

definition run :: "nat \<Rightarrow> fprog \<Rightarrow> state \<Rightarrow> outcome" where
  "run n prog s = exec n (CallRun prog) s"

definition reflect_get :: "nat \<Rightarrow> val \<Rightarrow> string \<Rightarrow> val \<Rightarrow> state \<Rightarrow> outcome" where
  "reflect_get n target prop receiver s = exec n (CallReflectGet target prop receiver) s"

definition reflect_set :: "nat \<Rightarrow> val \<Rightarrow> string \<Rightarrow> val \<Rightarrow> val \<Rightarrow> state \<Rightarrow> outcome" where
  "reflect_set n target prop v receiver s = exec n (CallReflectSet target prop v receiver) s"

section \<open>Sessions\<close>

text \<open>
  A sequence of top-level calls, one after the other, each with its own bound; the results are
  dropped, an exception included. \<open>None\<close> when one of the calls reaches its bound.
\<close>

fun exec_all :: "(nat \<times> call) list \<Rightarrow> state \<Rightarrow> state option" where
  "exec_all [] s = Some s"
| "exec_all ((n, c) # cs) s =
     (case exec n c s of None \<Rightarrow> None | Some (_, s') \<Rightarrow> exec_all cs s')"

text \<open>
  What the code outside the injector does with it, one step after the other: a registration, or
  a call with its bound (a resolution, or the use of a reference obtained earlier).
\<close>

datatype op = Register "val \<Rightarrow> fprog" ident "ident option" | Perform nat call

fun session :: "op list \<Rightarrow> state \<Rightarrow> state option" where
  "session [] s = Some s"
| "session (Register fac key token # ops) s = session ops (add fac key token s)"
| "session (Perform n c # ops) s =
     (case exec n c s of None \<Rightarrow> None | Some (_, s') \<Rightarrow> session ops s')"

text \<open>The state a call leaves, whatever it returned; the state it started in when it did not return.\<close>

definition state_after :: "outcome \<Rightarrow> state \<Rightarrow> state" where
  "state_after result s = (case result of Some (_, s') \<Rightarrow> s' | None \<Rightarrow> s)"

section \<open>The history of a store item\<close>

text \<open>How often line 100 called the factory of the store item at \<open>a\<close>, and how often it stored.\<close>

definition calls :: "nat \<Rightarrow> state \<Rightarrow> nat" where
  "calls a s = count_list (trace s) (Called a True)"

definition stores :: "nat \<Rightarrow> state \<Rightarrow> nat" where
  "stores a s = count_list (trace s) (Stored a)"

text \<open>
  What any call may do to the store item at \<open>a\<close> between a state \<open>s\<close> and a later state \<open>s'\<close>: the
  factory stays; an initialized item is left as it is; an uninitialized item is either left as
  it is, or it is bound in the registry and has been initialized by one call of line 100, with at
  most one store.
\<close>

definition item_evolves :: "nat \<Rightarrow> state \<Rightarrow> state \<Rightarrow> bool" where
  "item_evolves a s s' \<longleftrightarrow>
     factory (items s' a) = factory (items s a) \<and>
     (if initialized (items s a)
      then items s' a = items s a \<and> calls a s' = calls a s \<and> stores a s' = stores a s
      else (items s' a = items s a \<and> calls a s' = calls a s \<and> stores a s' = stores a s) \<or>
           (a \<in> ran (registry s) \<and> initialized (items s' a) \<and> calls a s' = Suc (calls a s) \<and>
              ((instance_slot (items s' a) = instance_slot (items s a) \<and> stores a s' = stores a s) \<or>
               stores a s' = Suc (stores a s))))"

definition evolves :: "state \<Rightarrow> state \<Rightarrow> bool" where
  "evolves s s' \<longleftrightarrow>
     registry s' = registry s \<and> next_item s' = next_item s \<and> (\<forall>a. item_evolves a s s')"

text \<open>
  The history agrees with the store: an initialized item has had its one call of line 100 and at
  most one store, an item not initialized has had none; an item never stored to holds \<^verbatim>\<open>null\<close>; and
  only allocated addresses are bound in the registry or initialized.
\<close>

definition history_ok :: "state \<Rightarrow> bool" where
  "history_ok s \<longleftrightarrow>
     (\<forall>K a. registry s K = Some a \<longrightarrow> a < next_item s) \<and>
     (\<forall>a. (if initialized (items s a)
           then calls a s = 1 \<and> stores a s \<le> 1 \<and> a < next_item s
           else calls a s = 0 \<and> stores a s = 0) \<and>
          (stores a s = 0 \<longrightarrow> instance_slot (items s a) = VNull))"

text \<open>
  Between two states of a session, for the store item at \<open>a\<close>: the factory is the same, an
  initialized item is the same item, and the history of the item has only grown.
\<close>

definition item_kept :: "nat \<Rightarrow> state \<Rightarrow> state \<Rightarrow> bool" where
  "item_kept a s s' \<longleftrightarrow>
     factory (items s' a) = factory (items s a) \<and>
     (initialized (items s a) \<longrightarrow> items s' a = items s a) \<and>
     calls a s \<le> calls a s' \<and> stores a s \<le> stores a s'"

section \<open>Factories that leave deferred references alone\<close>





section \<open>Scenarios\<close>

text \<open>
  The first example of the README: \<^verbatim>\<open>injector.add<MyService>(() => new MyService(), MyService)\<close>
  on a new injector, and the state after a first \<^verbatim>\<open>injector.get<MyService>(MyService)\<close>.
\<close>

definition MyService :: ident where
  "MyService = Ctor 0 ''class MyService''"

definition my_service_state :: state where
  "my_service_state = add (\<lambda>_. New [] Return) MyService None new_injector"

definition my_service_resolved :: state where
  "my_service_resolved = state_after (get 3 MyService default_options my_service_state) my_service_state"

text \<open>The state after a transient \<^verbatim>\<open>injector.get(MyService, { singleton: false })\<close> that followed.\<close>

definition my_service_later :: state where
  "my_service_later =
     state_after (get 3 MyService transient_options my_service_resolved) my_service_resolved"

text \<open>
  \<^verbatim>\<open>MyService\<close> registered with a token as well, and the state after
  \<^verbatim>\<open>injector.get(MyService)\<close>.
\<close>

definition MY_TOKEN :: ident where
  "MY_TOKEN = Token 1 ''MyToken''"

definition token_state :: state where
  "token_state = add (\<lambda>_. New [] Return) MyService (Some MY_TOKEN) new_injector"

definition token_resolved :: state where
  "token_resolved = state_after (get 3 MyService default_options token_state) token_state"

text \<open>
  \<^verbatim>\<open>MyService\<close> registered a second time, without a token and with a factory that sets a
  property, after the registration with \<open>MY_TOKEN\<close> was resolved.
\<close>

definition reregistered_state :: state where
  "reregistered_state = add (\<lambda>_. New [(''version'', VNum 2)] Return) MyService None token_resolved"

text \<open>
  The registration of the README, \<^verbatim>\<open>injector.add<string>(() => ..., String, MY_TOKEN)\<close>, with
  a factory that returns the empty string.
\<close>

definition empty_string_state :: state where
  "empty_string_state = add (\<lambda>_. Return (VStr '''')) (Ctor 0 ''String'') (Some (Token 1 ''MyToken'')) new_injector"

text \<open>
  Two calls \<^verbatim>\<open>injector.get(X)\<close> in a row, with default options: the two values returned, when
  both calls return.
\<close>

definition resolve_twice :: "nat \<Rightarrow> ident \<Rightarrow> state \<Rightarrow> (val \<times> val) option" where
  "resolve_twice n X s =
     (case get n X default_options s of
        Some (Inr v1, s1) \<Rightarrow>
          (case get n X default_options s1 of
             Some (Inr v2, s2) \<Rightarrow> Some (v1, v2)
           | _ \<Rightarrow> None)
      | _ \<Rightarrow> None)"

text \<open>
  \<^verbatim>\<open>injector.get(Key)\<close> and then \<^verbatim>\<open>injector.get(Tok)\<close>, with default options: the two values
  returned, when both calls return.
\<close>

definition resolve_both :: "nat \<Rightarrow> ident \<Rightarrow> ident \<Rightarrow> state \<Rightarrow> (val \<times> val) option" where
  "resolve_both n Key Tok s =
     (case get n Key default_options s of
        Some (Inr v1, s1) \<Rightarrow>
          (case get n Tok default_options s1 of
             Some (Inr v2, s2) \<Rightarrow> Some (v1, v2)
           | _ \<Rightarrow> None)
      | _ \<Rightarrow> None)"

text \<open>
  Two services that need each other, each built by \<^verbatim>\<open>new A(injector.get(B))\<close> and
  \<^verbatim>\<open>new B(injector.get(A))\<close>; the injector with both registered; and the state after
  \<^verbatim>\<open>injector.get(A)\<close>.
\<close>

definition ServiceA :: ident where
  "ServiceA = Ctor 0 ''class A''"

definition ServiceB :: ident where
  "ServiceB = Ctor 1 ''class B''"

definition cycle_state :: state where
  "cycle_state =
     add (\<lambda>_. Resolve ServiceA default_options (\<lambda>a. New [(''a'', a)] Return)) ServiceB None
       (add (\<lambda>_. Resolve ServiceB default_options (\<lambda>b. New [(''b'', b)] Return)) ServiceA None
          new_injector)"

definition cycle_resolved :: state where
  "cycle_resolved = state_after (get 6 ServiceA default_options cycle_state) cycle_state"





text \<open>
  A service whose factory throws: \<^verbatim>\<open>injector.add(() => { throw new Error('boom') }, Broken)\<close>
  on a new injector, and the state after a first \<^verbatim>\<open>injector.get(Broken)\<close>.
\<close>

definition Broken :: ident where
  "Broken = Ctor 0 ''class Broken''"

definition broken_state :: state where
  "broken_state = add (\<lambda>_. Throw (Error ''boom'')) Broken None new_injector"

definition broken_failed :: state where
  "broken_failed = state_after (get 2 Broken default_options broken_state) broken_state"

text \<open>The state after \<^verbatim>\<open>injector.get(Broken)\<close> was called once more and returned a reference.\<close>

definition broken_deferred :: state where
  "broken_deferred = state_after (get 1 Broken default_options broken_failed) broken_failed"

section \<open>Unfolding the bounded recursion\<close>

lemma get_0: "get 0 Key options s = None" by (simp add: get_def)

lemma get_Suc: "get (Suc n) Key options s = get_body (run n) Key options s"
  by (simp add: get_def run_def[abs_def])

lemma run_Suc: "run (Suc n) prog s = run_body (get n) (run n) (reflect_get n) (reflect_set n) prog s"
  by (simp add: get_def[abs_def] run_def[abs_def] reflect_get_def[abs_def] reflect_set_def[abs_def])

lemma reflect_get_Suc: "reflect_get (Suc n) t p r s = reflect_get_body (get n) (reflect_get n) t p r s"
  by (simp add: get_def[abs_def] reflect_get_def[abs_def])

lemma reflect_set_Suc: "reflect_set (Suc n) t p v r s = reflect_set_body (get n) (reflect_set n) t p v r s"
  by (simp add: get_def[abs_def] reflect_set_def[abs_def])

lemma reflect_get_0: "reflect_get 0 target prop receiver s = None"
  by (simp add: reflect_get_def)

lemma reflect_set_0: "reflect_set 0 target prop v receiver s = None"
  by (simp add: reflect_set_def)

lemma six: "6 + n = Suc (Suc (Suc (Suc (Suc (Suc n)))))"
  by simp

section \<open>Lookups and registrations\<close>

lemma lookup_eq:
  "lookup K s =
     (case registry s K of
        None \<Rightarrow> Inl (Error ((case K of Token _ d \<Rightarrow> ''Token '' @ d | Ctor _ src \<Rightarrow> src) @ '' is not registered''))
      | Some a \<Rightarrow> Inr a)"
  by (cases K; cases "registry s K") (simp_all add: token_find_def)

lemma lookup_Some: "registry s K = Some a \<Longrightarrow> lookup K s = Inr a"
  by (simp add: lookup_eq)

lemma lookup_Inr_ran: "lookup Key s = Inr a \<Longrightarrow> a \<in> ran (registry s)"
  by (cases Key) (auto simp: token_find_def ran_def split: option.splits)

lemma add_registry_key: "registry (add fac key token s) key = Some (next_item s)"
  by (cases token) (simp_all add: add_def Let_def)

lemma add_registry_token: "registry (add fac key (Some tok) s) tok = Some (next_item s)"
  by (simp add: add_def Let_def)

lemma add_registry_other:
  "K \<noteq> key \<Longrightarrow> token \<noteq> Some K \<Longrightarrow> registry (add fac key token s) K = registry s K"
  by (cases token) (auto simp: add_def Let_def)

lemma add_items_new:
  "items (add fac key token s) (next_item s) =
     \<lparr>initialized = False, factory = fac, instance_slot = VNull\<rparr>"
  by (cases token) (simp_all add: add_def Let_def)

lemma add_items_old: "a \<noteq> next_item s \<Longrightarrow> items (add fac key token s) a = items s a"
  by (cases token) (simp_all add: add_def Let_def)

lemma add_next_item: "next_item (add fac key token s) = Suc (next_item s)"
  by (cases token) (simp_all add: add_def Let_def)

lemma add_trace: "trace (add fac key token s) = trace s"
  by (cases token) (simp_all add: add_def Let_def)

section \<open>Every call preserves the history of every store item\<close>

lemma item_evolves_refl: "item_evolves a s s"
  by (simp add: item_evolves_def)

lemma item_evolves_trans:
  "registry t = registry s \<Longrightarrow> item_evolves a s t \<Longrightarrow> item_evolves a t u \<Longrightarrow> item_evolves a s u"
  unfolding item_evolves_def by (auto split: if_splits)

lemma evolves_refl: "evolves s s"
  by (simp add: evolves_def item_evolves_refl)

lemma evolves_trans: "evolves s t \<Longrightarrow> evolves t u \<Longrightarrow> evolves s u"
  unfolding evolves_def by (auto intro: item_evolves_trans)

lemma evolves_same:
  assumes "registry s' = registry s" "next_item s' = next_item s" "items s' = items s"
    and "\<And>a. calls a s' = calls a s" "\<And>a. stores a s' = stores a s"
  shows "evolves s s'"
  using assms by (simp add: evolves_def item_evolves_def)

lemma evolves_log_transient: "evolves s (log (Called a False) s)"
  by (rule evolves_same) (simp_all add: log_def calls_def stores_def)

lemma evolves_new_proxy: "new_proxy Key s = (p, s') \<Longrightarrow> evolves s s'"
  by (rule evolves_same) (auto simp: new_proxy_def calls_def stores_def)

lemma evolves_new_object: "new_object props s = (v, s') \<Longrightarrow> evolves s s'"
  by (rule evolves_same) (auto simp: new_object_def calls_def stores_def)

lemma evolves_define_on_receiver: "define_on_receiver r prop v s = (ok, s') \<Longrightarrow> evolves s s'"
  by (rule evolves_same; cases r) (auto simp: calls_def stores_def)

lemma item_evolves_cong_left:
  assumes e: "items s1 b = items s b" "calls b s1 = calls b s" "stores b s1 = stores b s"
      "registry s1 = registry s"
    and i: "item_evolves b s1 s2"
  shows "item_evolves b s s2"
  using i unfolding item_evolves_def e .

lemma item_evolves_cong_right:
  assumes e: "items s2 b = items s1 b" "calls b s2 = calls b s1" "stores b s2 = stores b s1"
    and i: "item_evolves b s s1"
  shows "item_evolves b s s2"
  using i unfolding item_evolves_def e .

lemma item_evolves_constructing:
  assumes "\<not> initialized (items s a)" "a \<in> ran (registry s)" "initialized (items s2 a)"
    "factory (items s2 a) = factory (items s a)"
    "calls a s2 = Suc (calls a s)"
    "(instance_slot (items s2 a) = instance_slot (items s a) \<and> stores a s2 = stores a s) \<or>
               stores a s2 = Suc (stores a s)"
  shows "item_evolves a s s2"
  unfolding item_evolves_def using assms by (intro conjI) (simp_all only: if_False simp_thms)

lemma construction_begun:
  assumes un: "\<not> initialized (items s a)" and bound: "a \<in> ran (registry s)"
    and ev: "evolves (log (Called a True) (set_initialized a s)) s2"
  shows "evolves s s2"
    and "items s2 a = (items s a)\<lparr>initialized := True\<rparr>"
    and "calls a s2 = Suc (calls a s)" and "stores a s2 = stores a s"
proof -
  let ?s1 = "log (Called a True) (set_initialized a s)"
  have a1: "items ?s1 a = (items s a)\<lparr>initialized := True\<rparr>" "calls a ?s1 = Suc (calls a s)"
    "stores a ?s1 = stores a s"
    by (simp_all add: log_def set_initialized_def calls_def stores_def)
  have other: "items ?s1 b = items s b \<and> calls b ?s1 = calls b s \<and> stores b ?s1 = stores b s \<and>
      registry ?s1 = registry s"
    if "b \<noteq> a" for b
    using that by (simp add: log_def set_initialized_def calls_def stores_def)
  from ev have ia: "item_evolves a ?s1 s2" by (simp add: evolves_def)
  with a1 show 2: "items s2 a = (items s a)\<lparr>initialized := True\<rparr>"
    and 3: "calls a s2 = Suc (calls a s)" and 4: "stores a s2 = stores a s"
    by (simp_all add: item_evolves_def)
  have "item_evolves b s s2" for b
  proof (cases "b = a")
    case True
    have "initialized (items s2 a)" "factory (items s2 a) = factory (items s a)"
      "instance_slot (items s2 a) = instance_slot (items s a)"
      by (simp_all add: 2)
    with un bound 3 4 have "item_evolves a s s2" by (intro item_evolves_constructing) simp_all
    then show ?thesis unfolding True .
  next
    case False
    from ev have "item_evolves b ?s1 s2" by (simp add: evolves_def)
    with other[OF False] show ?thesis by (blast intro: item_evolves_cong_left)
  qed
  moreover from ev have "registry s2 = registry s" "next_item s2 = next_item s"
    by (simp_all add: evolves_def log_def set_initialized_def)
  ultimately show "evolves s s2" by (simp add: evolves_def)
qed

lemma construction_finished:
  assumes un: "\<not> initialized (items s a)" and bound: "a \<in> ran (registry s)"
    and ev: "evolves (log (Called a True) (set_initialized a s)) s2"
  shows "evolves s (log (Stored a) (set_instance a v s2))"
proof -
  let ?s3 = "log (Stored a) (set_instance a v s2)"
  note cb = construction_begun[OF un bound ev]
  have "item_evolves b s ?s3" for b
  proof (cases "b = a")
    case True
    have "initialized (items ?s3 a)" "factory (items ?s3 a) = factory (items s a)"
      by (simp_all add: log_def set_instance_def cb(2))
    moreover have "calls a ?s3 = Suc (calls a s)" "stores a ?s3 = Suc (stores a s)"
      using cb(3,4) by (simp_all add: log_def set_instance_def calls_def stores_def)
    ultimately have "item_evolves a s ?s3" using un bound by (intro item_evolves_constructing) simp_all
    then show ?thesis unfolding True .
  next
    case False
    have "items ?s3 b = items s2 b" "calls b ?s3 = calls b s2" "stores b ?s3 = stores b s2"
      using False by (simp_all add: log_def set_instance_def calls_def stores_def)
    moreover from cb(1) have "item_evolves b s s2" by (simp add: evolves_def)
    ultimately show ?thesis by (blast intro: item_evolves_cong_right)
  qed
  moreover from cb(1) have "registry ?s3 = registry s" "next_item ?s3 = next_item s"
    by (simp_all add: evolves_def log_def set_instance_def)
  ultimately show ?thesis by (simp add: evolves_def)
qed

lemma and_then_SomeE:
  assumes "and_then m k = Some (r, s'')"
  obtains (failed) e where "m = Some (Inl e, s'')" "r = Inl e"
  | (returned) v s' where "m = Some (Inr v, s')" "k v s' = Some (r, s'')"
  using assms unfolding and_then_def by (auto split: option.splits sum.splits)

lemma and_then_evolves:
  assumes "and_then m k = Some (r, s'')"
    and "\<And>x t. m = Some (x, t) \<Longrightarrow> evolves s t"
    and "\<And>v t. m = Some (Inr v, t) \<Longrightarrow> k v t = Some (r, s'') \<Longrightarrow> evolves t s''"
  shows "evolves s s''"
  using assms(1)
proof (cases rule: and_then_SomeE)
  case (failed e)
  then show ?thesis using assms(2) by simp
next
  case (returned v s')
  then show ?thesis using assms(2,3) evolves_trans by blast
qed

lemma get_body_evolves:
  assumes cf: "\<And>p t r t'. call_factory p t = Some (r, t') \<Longrightarrow> evolves t t'"
    and g: "get_body call_factory Key options s = Some (r, s')"
  shows "evolves s s'"
proof (cases "lookup Key s")
  case (Inl e)
  with g show ?thesis by (simp add: get_body_def evolves_refl)
next
  case (Inr a)
  show ?thesis
  proof (cases "singleton options")
    case False
    with g Inr have "call_factory (factory (items s a) (params options)) (log (Called a False) s) = Some (r, s')"
      by (simp add: get_body_def)
    from cf[OF this] show ?thesis by (rule evolves_trans[OF evolves_log_transient])
  next
    case sing: True
    show ?thesis
    proof (cases "initialized (items s a)")
      case True
      show ?thesis
      proof (cases "truthy (instance_slot (items s a))")
        case t: True
        with g Inr sing True show ?thesis by (simp add: get_body_def evolves_refl)
      next
        case f: False
        with g Inr sing True have "\<exists>p. new_proxy Key s = (p, s')"
          by (auto simp: get_body_def split: prod.splits)
        then show ?thesis by (auto dest: evolves_new_proxy)
      qed
    next
      case False
      from Inr have bound: "a \<in> ran (registry s)" by (rule lookup_Inr_ran)
      let ?s1 = "log (Called a True) (set_initialized a s)"
      from g Inr sing False have
        at: "and_then (call_factory (factory (items s a) (params options)) ?s1)
               (\<lambda>v s'. Some (Inr v, log (Stored a) (set_instance a v s'))) = Some (r, s')"
        by (simp add: get_body_def)
      then show ?thesis
      proof (cases rule: and_then_SomeE)
        case (failed e)
        from cf[OF failed(1)] show ?thesis by (rule construction_begun(1)[OF False bound])
      next
        case (returned v s2)
        from cf[OF returned(1)] have "evolves s (log (Stored a) (set_instance a v s2))"
          by (rule construction_finished[OF False bound])
        with returned(2) show ?thesis by simp
      qed
    qed
  qed
qed

lemma reflect_get_body_evolves:
  assumes ig: "\<And>K opts t r t'. inj_get K opts t = Some (r, t') \<Longrightarrow> evolves t t'"
    and rg: "\<And>x p rc t r t'. refl_get x p rc t = Some (r, t') \<Longrightarrow> evolves t t'"
    and g: "reflect_get_body inj_get refl_get target prop receiver s = Some (r, s')"
  shows "evolves s s'"
proof (cases target)
  case (VProxy p Key)
  with g have "and_then (inj_get Key default_options s)
            (\<lambda>target' s'.
               if typeof target' \<noteq> ''object'' then Some (Inl (instance_not_found Key), s')
               else refl_get target' prop receiver s') = Some (r, s')"
    by (simp add: reflect_get_body_def)
  then show ?thesis
  proof (rule and_then_evolves)
    show "inj_get Key default_options s = Some (y, t) \<Longrightarrow> evolves s t" for y t
      by (rule ig)
    show "(if typeof v \<noteq> ''object'' then Some (Inl (instance_not_found Key), t)
           else refl_get v prop receiver t) = Some (r, s') \<Longrightarrow> evolves t s'" for v t
      by (cases "typeof v \<noteq> ''object''") (auto simp: evolves_refl elim: rg)
  qed
qed (use g in \<open>simp_all add: reflect_get_body_def evolves_refl\<close>)

lemma reflect_set_body_evolves:
  assumes ig: "\<And>K opts t r t'. inj_get K opts t = Some (r, t') \<Longrightarrow> evolves t t'"
    and rs: "\<And>x p v rc t r t'. refl_set x p v rc t = Some (r, t') \<Longrightarrow> evolves t t'"
    and g: "reflect_set_body inj_get refl_set target prop v receiver s = Some (r, s')"
  shows "evolves s s'"
proof (cases target)
  case (VProxy p Key)
  with g have "and_then (inj_get Key default_options s)
            (\<lambda>target' s'.
               if typeof target' \<noteq> ''object'' then Some (Inl (instance_not_found Key), s')
               else refl_set target' prop v receiver s') = Some (r, s')"
    by (simp add: reflect_set_body_def)
  then show ?thesis
  proof (rule and_then_evolves)
    show "inj_get Key default_options s = Some (y, t) \<Longrightarrow> evolves s t" for y t
      by (rule ig)
    show "(if typeof w \<noteq> ''object'' then Some (Inl (instance_not_found Key), t)
           else refl_set w prop v receiver t) = Some (r, s') \<Longrightarrow> evolves t s'" for w t
      by (cases "typeof w \<noteq> ''object''") (auto simp: evolves_refl elim: rs)
  qed
next
  case (VObj a)
  with g show ?thesis
    by (auto simp: reflect_set_body_def split: prod.splits dest: evolves_define_on_receiver)
next
  case (VFun a)
  with g show ?thesis
    by (auto simp: reflect_set_body_def split: prod.splits dest: evolves_define_on_receiver)
qed (use g in \<open>simp_all add: reflect_set_body_def evolves_refl\<close>)

lemma read_member_evolves:
  assumes rg: "\<And>x p rc t r t'. refl_get x p rc t = Some (r, t') \<Longrightarrow> evolves t t'"
    and g: "read_member refl_get x prop s = Some (r, s')"
  shows "evolves s s'"
proof (cases "x = VUndefined \<or> x = VNull")
  case True
  with g show ?thesis by (auto simp: read_member_def evolves_refl)
next
  case False
  show ?thesis
  proof (cases "is_reference x")
    case True
    with False g have "refl_get x prop x s = Some (r, s')" by (simp add: read_member_def)
    then show ?thesis by (rule rg)
  next
    case nr: False
    with False g show ?thesis by (simp add: read_member_def evolves_refl)
  qed
qed

lemma write_member_evolves:
  assumes rs: "\<And>x p v rc t r t'. refl_set x p v rc t = Some (r, t') \<Longrightarrow> evolves t t'"
    and g: "write_member refl_set x prop v s = Some (r, s')"
  shows "evolves s s'"
proof (cases "is_reference x")
  case True
  with g have "refl_set x prop v x s = Some (r, s')" by (simp add: write_member_def)
  then show ?thesis by (rule rs)
next
  case False
  with g show ?thesis by (simp add: write_member_def evolves_refl)
qed

lemma run_body_evolves:
  assumes ig: "\<And>K opts t r t'. inj_get K opts t = Some (r, t') \<Longrightarrow> evolves t t'"
    and rr: "\<And>p t r t'. rec_run p t = Some (r, t') \<Longrightarrow> evolves t t'"
    and rg: "\<And>x p rc t r t'. refl_get x p rc t = Some (r, t') \<Longrightarrow> evolves t t'"
    and rs: "\<And>x p v rc t r t'. refl_set x p v rc t = Some (r, t') \<Longrightarrow> evolves t t'"
    and g: "run_body inj_get rec_run refl_get refl_set prog s = Some (r, s')"
  shows "evolves s s'"
proof (cases prog)
  case (Return v)
  with g show ?thesis by (simp add: run_body_def evolves_refl)
next
  case (Throw e)
  with g show ?thesis by (simp add: run_body_def evolves_refl)
next
  case (Resolve Key options k)
  with g have "and_then (inj_get Key options s) (\<lambda>v. rec_run (k v)) = Some (r, s')"
    by (simp add: run_body_def)
  then show ?thesis
  proof (rule and_then_evolves)
    show "inj_get Key options s = Some (y, t) \<Longrightarrow> evolves s t" for y t
      by (rule ig)
    show "rec_run (k v) t = Some (r, s') \<Longrightarrow> evolves t s'" for v t
      by (rule rr)
  qed
next
  case (New props k)
  obtain v s1 where n: "new_object props s = (v, s1)" by (cases "new_object props s")
  with g New have "rec_run (k v) s1 = Some (r, s')" by (simp add: run_body_def)
  with n show ?thesis by (blast intro: evolves_trans evolves_new_object rr)
next
  case (ReadProp x pr k)
  with g have "and_then (read_member refl_get x pr s) (\<lambda>v. rec_run (k v)) = Some (r, s')"
    by (simp add: run_body_def)
  then show ?thesis
  proof (rule and_then_evolves)
    show "read_member refl_get x pr s = Some (y, t) \<Longrightarrow> evolves s t" for y t
      using rg by (rule read_member_evolves)
    show "rec_run (k v) t = Some (r, s') \<Longrightarrow> evolves t s'" for v t
      by (rule rr)
  qed
next
  case (WriteProp x pr v rest)
  with g have "and_then (write_member refl_set x pr v s) (\<lambda>_. rec_run rest) = Some (r, s')"
    by (simp add: run_body_def)
  then show ?thesis
  proof (rule and_then_evolves)
    show "write_member refl_set x pr v s = Some (y, t) \<Longrightarrow> evolves s t" for y t
      using rs by (rule write_member_evolves)
    show "rec_run rest t = Some (r, s') \<Longrightarrow> evolves t s'" for t
      by (rule rr)
  qed
next
  case (TryCatch body handler k)
  with g obtain x s1 where b: "rec_run body s = Some (x, s1)"
    and c: "(case x of Inl e \<Rightarrow> rec_run (handler e) s1 | Inr v \<Rightarrow> rec_run (k v) s1) = Some (r, s')"
    by (auto simp: run_body_def split: option.splits sum.splits)
  from c have "evolves s1 s'" by (cases x) (auto dest: rr)
  with rr[OF b] show ?thesis by (rule evolves_trans)
qed

lemma exec_evolves: "exec n c s = Some (r, s') \<Longrightarrow> evolves s s'"
proof (induction n arbitrary: c s r s')
  case 0
  then show ?case by simp
next
  case (Suc n)
  show ?case
  proof (cases c)
    case (CallGet Key options)
    with Suc.prems have "get_body (\<lambda>p. exec n (CallRun p)) Key options s = Some (r, s')" by simp
    then show ?thesis by (rule get_body_evolves[rotated]) (erule Suc.IH)
  next
    case (CallRun prog)
    with Suc.prems have "run_body (\<lambda>K opts. exec n (CallGet K opts)) (\<lambda>p. exec n (CallRun p))
            (\<lambda>t p r. exec n (CallReflectGet t p r)) (\<lambda>t p v r. exec n (CallReflectSet t p v r)) prog s
          = Some (r, s')" by simp
    then show ?thesis by (rule run_body_evolves[rotated -1]) (erule Suc.IH)+
  next
    case (CallReflectGet t p rc)
    with Suc.prems have "reflect_get_body (\<lambda>K opts. exec n (CallGet K opts))
            (\<lambda>t p r. exec n (CallReflectGet t p r)) t p rc s = Some (r, s')" by simp
    then show ?thesis by (rule reflect_get_body_evolves[rotated -1]) (erule Suc.IH)+
  next
    case (CallReflectSet t p v rc)
    with Suc.prems have "reflect_set_body (\<lambda>K opts. exec n (CallGet K opts))
            (\<lambda>t p v r. exec n (CallReflectSet t p v r)) t p v rc s = Some (r, s')" by simp
    then show ?thesis by (rule reflect_set_body_evolves[rotated -1]) (erule Suc.IH)+
  qed
qed

lemma exec_all_evolves: "exec_all cs s = Some s' \<Longrightarrow> evolves s s'"
proof (induction cs arbitrary: s)
  case Nil
  then show ?case by (simp add: evolves_refl)
next
  case (Cons nc cs)
  obtain n c where nc: "nc = (n, c)" by (cases nc)
  with Cons.prems obtain r s1 where e: "exec n c s = Some (r, s1)" and rest: "exec_all cs s1 = Some s'"
    by (auto split: option.splits)
  from exec_evolves[OF e] Cons.IH[OF rest] show ?case by (rule evolves_trans)
qed

lemma evolves_item: "evolves s s' \<Longrightarrow> item_evolves a s s'"
  by (simp add: evolves_def)

lemma evolves_initialized:
  assumes "evolves s s'" "initialized (items s a)"
  shows "items s' a = items s a" "calls a s' = calls a s" "stores a s' = stores a s"
  using assms by (simp_all add: evolves_def item_evolves_def)

lemma evolves_registry: "evolves s s' \<Longrightarrow> registry s' = registry s"
  by (simp add: evolves_def)

lemma evolves_next_item: "evolves s s' \<Longrightarrow> next_item s' = next_item s"
  by (simp add: evolves_def)

lemma evolves_factory: "evolves s s' \<Longrightarrow> factory (items s' a) = factory (items s a)"
  by (simp add: evolves_def item_evolves_def)

section \<open>A larger bound never changes a result\<close>












section \<open>Resolutions\<close>

text \<open>
  The first singleton resolution of an uninitialized store item: the factory is called once on
  the item already marked, and its whole run leaves the item marked and otherwise untouched.
\<close>

lemma first_resolution:
  assumes X: "registry s X = Some a" and un: "\<not> initialized (items s a)" and sing: "singleton options"
    and g: "get n X options s = Some (r, s1)"
  obtains m s' where "n = Suc m"
    and "run m (factory (items s a) (params options)) (log (Called a True) (set_initialized a s)) = Some (r, s')"
    and "items s' a = (items s a)\<lparr>initialized := True\<rparr>"
    and "calls a s' = Suc (calls a s)" and "stores a s' = stores a s"
    and "registry s' = registry s"
    and "case r of Inl e \<Rightarrow> s1 = s' | Inr v \<Rightarrow> s1 = log (Stored a) (set_instance a v s')"
proof -
  from g obtain m where n: "n = Suc m" by (cases n) (simp_all add: get_0)
  from X have bound: "a \<in> ran (registry s)" by (auto simp: ran_def)
  let ?s0 = "log (Called a True) (set_initialized a s)"
  from g n X un sing have at: "and_then (run m (factory (items s a) (params options)) ?s0)
              (\<lambda>v s'. Some (Inr v, log (Stored a) (set_instance a v s'))) = Some (r, s1)"
    by (simp add: get_Suc get_body_def lookup_Some)
  then show thesis
  proof (cases rule: and_then_SomeE)
    case (failed e)
    from failed(1) have ev: "evolves ?s0 s1" unfolding run_def by (rule exec_evolves)
    from construction_begun[OF un bound ev] failed n show ?thesis
      by (intro that[of m s1]) (simp_all add: evolves_def)
  next
    case (returned v s')
    from returned(1) have ev: "evolves ?s0 s'" unfolding run_def by (rule exec_evolves)
    from construction_begun[OF un bound ev] returned n show ?thesis
      by (intro that[of m s']) (auto simp: evolves_def)
  qed
qed

lemma get_instance:
  assumes "registry s Key = Some a" "initialized (items s a)" "truthy (instance_slot (items s a))"
  shows "get (Suc n) Key default_options s = Some (Inr (instance_slot (items s a)), s)"
  using assms by (simp add: get_Suc get_body_def lookup_Some default_options_def)

text \<open>
  While the slot of an initialized store item is falsy, \<^verbatim>\<open>get\<close> answers with a new proxy, whose
  trap calls \<^verbatim>\<open>get\<close> again: no bound on the depth of the calls is enough.
\<close>

lemma get_deferred:
  assumes "registry s Key = Some a" "initialized (items s a)" "\<not> truthy (instance_slot (items s a))"
  shows "get (Suc n) Key default_options s =
           Some (Inr (VProxy (next_obj s) Key),
                 s\<lparr>objs := (objs s)(next_obj s := Map.empty), next_obj := Suc (next_obj s)\<rparr>)"
  using assms by (simp add: get_Suc get_body_def lookup_Some new_proxy_def default_options_def)

text \<open>Two identifiers bound to one store item resolve alike, the deferred branch apart.\<close>

lemma get_alias:
  assumes "registry s K1 = Some a" "registry s K2 = Some a"
    and "initialized (items s a) \<longrightarrow> truthy (instance_slot (items s a)) \<or> \<not> singleton options"
  shows "get n K1 options s = get n K2 options s"
proof (cases n)
  case 0
  then show ?thesis by (simp add: get_0)
next
  case (Suc k)
  with assms show ?thesis by (auto simp: get_Suc get_body_def lookup_Some Let_def)
qed

lemma deferred_read_never_returns:
  assumes "registry s Key = Some a" "initialized (items s a)" "\<not> truthy (instance_slot (items s a))"
  shows "reflect_get n (VProxy p Key) prop receiver s = None"
  using assms
proof (induction n arbitrary: s p)
  case 0
  show ?case by (rule reflect_get_0)
next
  case (Suc n)
  show ?case
  proof (cases n)
    case 0
    then show ?thesis by (simp add: reflect_get_Suc reflect_get_body_def and_then_def get_0)
  next
    case (Suc m)
    let ?s' = "s\<lparr>objs := (objs s)(next_obj s := Map.empty), next_obj := Suc (next_obj s)\<rparr>"
    have "reflect_get n (VProxy (next_obj s) Key) prop receiver ?s' = None"
      using Suc.prems by (intro Suc.IH[of ?s' "next_obj s"]) simp_all
    with Suc get_deferred[OF Suc.prems, of m] show ?thesis
      by (simp add: reflect_get_Suc reflect_get_body_def and_then_def)
  qed
qed

lemma deferred_write_never_returns:
  assumes "registry s Key = Some a" "initialized (items s a)" "\<not> truthy (instance_slot (items s a))"
  shows "reflect_set n (VProxy p Key) prop v receiver s = None"
  using assms
proof (induction n arbitrary: s p)
  case 0
  show ?case by (rule reflect_set_0)
next
  case (Suc n)
  show ?case
  proof (cases n)
    case 0
    then show ?thesis by (simp add: reflect_set_Suc reflect_set_body_def and_then_def get_0)
  next
    case (Suc m)
    let ?s' = "s\<lparr>objs := (objs s)(next_obj s := Map.empty), next_obj := Suc (next_obj s)\<rparr>"
    have "reflect_set n (VProxy (next_obj s) Key) prop v receiver ?s' = None"
      using Suc.prems by (intro Suc.IH[of ?s' "next_obj s"]) simp_all
    with Suc get_deferred[OF Suc.prems, of m] show ?thesis
      by (simp add: reflect_set_Suc reflect_set_body_def and_then_def)
  qed
qed

text \<open>
  Two services that need each other, built by constructor injection,
  \<^verbatim>\<open>(inj, p) => new A(inj.get(B))\<close> and \<^verbatim>\<open>(inj, p) => new B(inj.get(A))\<close> (the properties the
  constructors set are arbitrary functions of the parameters and of the dependency): \<^verbatim>\<open>get(A)\<close>
  returns within six nested calls the object built by the factory of \<open>A\<close>; the instance of \<open>B\<close>
  holds a deferred reference for \<open>A\<close>, whose own target is empty; and the history shows each
  factory called once, \<open>A\<close> then \<open>B\<close>, then the two stores.
\<close>

lemma constructor_injection_cycle:
  assumes A: "registry s A = Some a" and B: "registry s B = Some b" and ab: "a \<noteq> b"
    and ia: "items s a = \<lparr>initialized = False,
               factory = (\<lambda>p. Resolve B default_options (\<lambda>dep. New (propsA p dep) Return)),
               instance_slot = VNull\<rparr>"
    and ib: "items s b = \<lparr>initialized = False,
               factory = (\<lambda>p. Resolve A default_options (\<lambda>dep. New (propsB p dep) Return)),
               instance_slot = VNull\<rparr>"
  shows "\<exists>s'. get (6 + n) A default_options s = Some (Inr (VObj (next_obj s + 2)), s') \<and>
           initialized (items s' a) \<and> instance_slot (items s' a) = VObj (next_obj s + 2) \<and>
           initialized (items s' b) \<and> instance_slot (items s' b) = VObj (next_obj s + 1) \<and>
           objs s' (next_obj s + 2) = map_of (propsA VUndefined (VObj (next_obj s + 1))) \<and>
           objs s' (next_obj s + 1) = map_of (propsB VUndefined (VProxy (next_obj s) A)) \<and>
           objs s' (next_obj s) = Map.empty \<and>
           trace s' = trace s @ [Called a True, Called b True, Stored b, Stored a]"
  unfolding six
  using assms
  by (simp add: get_Suc run_Suc get_body_def run_body_def and_then_def lookup_eq log_def
      set_initialized_def set_instance_def new_proxy_def new_object_def Let_def default_options_def)

section \<open>Factories that leave deferred references alone return\<close>


















section \<open>Sessions keep the history in agreement with the store\<close>

lemma history_ok_new_injector: "history_ok new_injector"
  by (simp add: history_ok_def new_injector_def calls_def stores_def)

lemma history_ok_item:
  "history_ok s \<Longrightarrow>
     (if initialized (items s a)
      then calls a s = 1 \<and> stores a s \<le> 1 \<and> a < next_item s
      else calls a s = 0 \<and> stores a s = 0) \<and>
     (stores a s = 0 \<longrightarrow> instance_slot (items s a) = VNull)"
  unfolding history_ok_def by blast

lemma history_ok_bound: "history_ok s \<Longrightarrow> registry s K = Some a \<Longrightarrow> a < next_item s"
  unfolding history_ok_def by blast

lemma history_ok_add:
  assumes "history_ok s"
  shows "history_ok (add fac key token s)"
proof -
  let ?s' = "add fac key token s" and ?n = "next_item s"
  from history_ok_item[OF assms, of ?n]
  have fresh: "\<not> initialized (items s ?n)" "calls ?n s = 0" "stores ?n s = 0"
    by (auto split: if_splits)
  have reg: "a < next_item ?s'" if "registry ?s' K = Some a" for K a
  proof (cases "K = key \<or> token = Some K")
    case True
    with that have "a = ?n" by (cases token) (auto simp: add_def Let_def split: if_splits)
    then show ?thesis by (simp add: add_next_item)
  next
    case False
    with that have "registry s K = Some a" by (simp add: add_registry_other)
    with assms have "a < ?n" by (rule history_ok_bound)
    then show ?thesis by (simp add: add_next_item)
  qed
  have cs: "calls a ?s' = calls a s" "stores a ?s' = stores a s" for a
    by (simp_all add: calls_def stores_def add_trace)
  have item: "(if initialized (items ?s' a)
           then calls a ?s' = 1 \<and> stores a ?s' \<le> 1 \<and> a < next_item ?s'
           else calls a ?s' = 0 \<and> stores a ?s' = 0) \<and>
          (stores a ?s' = 0 \<longrightarrow> instance_slot (items ?s' a) = VNull)" for a
  proof (cases "a = ?n")
    case True
    with fresh show ?thesis by (simp add: cs add_items_new)
  next
    case False
    from assms have "(if initialized (items s a)
           then calls a s = 1 \<and> stores a s \<le> 1 \<and> a < next_item s
           else calls a s = 0 \<and> stores a s = 0) \<and>
          (stores a s = 0 \<longrightarrow> instance_slot (items s a) = VNull)"
      by (rule history_ok_item)
    with False show ?thesis by (auto simp: cs add_items_old add_next_item split: if_splits)
  qed
  from reg item show ?thesis unfolding history_ok_def by blast
qed

lemma history_ok_evolves:
  assumes ok: "history_ok s" and ev: "evolves s s'"
  shows "history_ok s'"
proof -
  from ev have reg: "registry s' = registry s" and nx: "next_item s' = next_item s"
    by (simp_all add: evolves_def)
  have item: "(if initialized (items s' a)
           then calls a s' = 1 \<and> stores a s' \<le> 1 \<and> a < next_item s'
           else calls a s' = 0 \<and> stores a s' = 0) \<and>
          (stores a s' = 0 \<longrightarrow> instance_slot (items s' a) = VNull)" for a
  proof -
    from ok have h: "(if initialized (items s a)
           then calls a s = 1 \<and> stores a s \<le> 1 \<and> a < next_item s
           else calls a s = 0 \<and> stores a s = 0) \<and>
          (stores a s = 0 \<longrightarrow> instance_slot (items s a) = VNull)"
      by (rule history_ok_item)
    from ok have bound: "a \<in> ran (registry s) \<Longrightarrow> a < next_item s"
      by (auto simp: ran_def dest: history_ok_bound)
    from ev have "item_evolves a s s'" by (rule evolves_item)
    with h bound show ?thesis unfolding item_evolves_def nx
      by (cases "initialized (items s a)") auto
  qed
  from reg nx have "\<forall>K a. registry s' K = Some a \<longrightarrow> a < next_item s'"
    by (auto dest: history_ok_bound[OF ok])
  with item show ?thesis unfolding history_ok_def by blast
qed

lemma session_history_ok: "history_ok s \<Longrightarrow> session ops s = Some s' \<Longrightarrow> history_ok s'"
proof (induction ops s rule: session.induct)
  case (1 s)
  then show ?case by simp
next
  case (2 fac key token ops s)
  then show ?case by (simp add: history_ok_add)
next
  case (3 n c ops s)
  from "3.prems"(2) obtain r s1 where e: "exec n c s = Some (r, s1)" and rest: "session ops s1 = Some s'"
    by (auto split: option.splits)
  from "3.prems"(1) exec_evolves[OF e] have "history_ok s1" by (rule history_ok_evolves)
  with "3.IH" e rest show ?case by simp
qed

lemma item_kept_refl: "item_kept a s s"
  by (simp add: item_kept_def)

lemma item_kept_trans: "item_kept a s t \<Longrightarrow> item_kept a t u \<Longrightarrow> item_kept a s u"
  unfolding item_kept_def by (cases "initialized (items s a)") auto

lemma item_kept_add: "a < next_item s \<Longrightarrow> item_kept a s (add fac key token s)"
  by (simp add: item_kept_def add_items_old calls_def stores_def add_trace)

lemma item_kept_evolves: "evolves s s' \<Longrightarrow> item_kept a s s'"
  using evolves_item[of s s' a] unfolding item_evolves_def item_kept_def
  by (cases "initialized (items s a)") auto

lemma session_item_kept:
  "session ops s = Some s' \<Longrightarrow> a < next_item s \<Longrightarrow> item_kept a s s' \<and> a < next_item s'"
proof (induction ops s rule: session.induct)
  case (1 s)
  then show ?case by (simp add: item_kept_refl)
next
  case (2 fac key token ops s)
  from "2.prems" have "a < next_item (add fac key token s)" by (simp add: add_next_item)
  with "2.IH" "2.prems" have "item_kept a (add fac key token s) s' \<and> a < next_item s'" by simp
  with item_kept_add[OF "2.prems"(2)] show ?case by (blast intro: item_kept_trans)
next
  case (3 n c ops s)
  from "3.prems"(1) obtain r s1 where e: "exec n c s = Some (r, s1)" and rest: "session ops s1 = Some s'"
    by (auto split: option.splits)
  from exec_evolves[OF e] have ev: "evolves s s1" .
  then have "a < next_item s1" using "3.prems"(2) by (simp add: evolves_def)
  with "3.IH" e rest have "item_kept a s1 s' \<and> a < next_item s'" by simp
  with item_kept_evolves[OF ev] show ?case by (blast intro: item_kept_trans)
qed

section \<open>Evaluating the scenarios\<close>

lemmas evaluation =
  get_Suc run_Suc reflect_get_Suc reflect_set_Suc get_body_def run_body_def reflect_get_body_def
  reflect_set_body_def read_member_def write_member_def is_reference_def and_then_def lookup_eq
  log_def set_initialized_def set_instance_def new_proxy_def new_object_def own_property_def
  Let_def default_options_def add_def new_injector_def state_after_def eval_nat_numeral
  instance_not_found_def

lemma my_service_first:
  "get 3 MyService default_options my_service_state = Some (Inr (VObj 0), my_service_resolved)"
  by (simp add: my_service_resolved_def my_service_state_def MyService_def evaluation)

lemma my_service_later_eval:
  "get 3 MyService transient_options my_service_resolved = Some (Inr (VObj 1), my_service_later)"
  by (simp add: my_service_later_def my_service_resolved_def my_service_state_def MyService_def
      transient_options_def evaluation)

lemma token_resolved_eval:
  "get 3 MyService default_options token_state = Some (Inr (VObj 0), token_resolved)"
  by (simp add: token_resolved_def token_state_def MyService_def MY_TOKEN_def evaluation)

lemma broken_first:
  "get 2 Broken default_options broken_state = Some (Inl (Error ''boom''), broken_failed)"
  by (simp add: broken_failed_def broken_state_def Broken_def evaluation)

lemma broken_deferred_eval:
  "get 1 Broken default_options broken_failed = Some (Inr (VProxy 0 Broken), broken_deferred)"
  by (simp add: broken_deferred_def broken_failed_def broken_state_def Broken_def evaluation)




section \<open>The claims\<close>




text \<open>
  C2, at the input where the code departs from it. Let the store item of \<open>Key\<close> hold an ordinary
  object \<open>obj\<close>, and let \<open>VProxy p Key\<close> be a deferred reference for \<open>Key\<close>. A read
  \<^verbatim>\<open>ref.prop\<close> calls \<^verbatim>\<open>get(Key)\<close> again and returns the property of \<open>obj\<close>. A write
  \<^verbatim>\<open>ref.prop = v\<close> calls \<^verbatim>\<open>get(Key)\<close> again too, but line 92 passes the reference itself as the
  receiver of \<^verbatim>\<open>Reflect.set\<close>: the value is stored in the reference's own target (address \<open>p\<close>),
  and nothing else changes, \<open>obj\<close> included when \<open>p \<noteq> obj\<close>.
\<close>

theorem deferred_write_stays_on_reference:
  assumes "registry s Key = Some a" "initialized (items s a)" "instance_slot (items s a) = VObj obj"
  shows "reflect_get (Suc (Suc n)) (VProxy p Key) prop (VProxy p Key) s
           = Some (Inr (own_property obj prop s), s) \<and>
         reflect_set (Suc (Suc n)) (VProxy p Key) prop v (VProxy p Key) s
           = Some (Inr (VBool True), s\<lparr>objs := (objs s)(p := (objs s p)(prop \<mapsto> v))\<rparr>)"
  using assms get_instance[OF assms(1,2), of n]
  by (simp add: reflect_get_Suc reflect_set_Suc reflect_get_body_def reflect_set_body_def
      and_then_def)

text \<open>
  With the two services of the cycle resolved: the instance of \<open>A\<close> is object 2, the reference to
  it that the instance of \<open>B\<close> holds has the target 0. Writing \<open>x\<close> through the reference puts
  \<open>x\<close> on object 0; object 2 has no \<open>x\<close>, and reading \<open>x\<close> back through the reference gives
  \<^verbatim>\<open>undefined\<close>.
\<close>

theorem deferred_write_stays_on_reference_witness:
  "reflect_set 2 (VProxy 0 ServiceA) ''x'' (VNum 1) (VProxy 0 ServiceA) cycle_resolved
     = Some (Inr (VBool True), cycle_resolved\<lparr>objs := (objs cycle_resolved)(0 := [''x'' \<mapsto> VNum 1])\<rparr>) \<and>
   objs cycle_resolved 0 = Map.empty \<and>
   instance_slot (items cycle_resolved 0) = VObj 2 \<and>
   objs (cycle_resolved\<lparr>objs := (objs cycle_resolved)(0 := [''x'' \<mapsto> VNum 1])\<rparr>) 2 ''x'' = None \<and>
   reflect_get 2 (VProxy 0 ServiceA) ''x'' (VProxy 0 ServiceA)
       (cycle_resolved\<lparr>objs := (objs cycle_resolved)(0 := [''x'' \<mapsto> VNum 1])\<rparr>)
     = Some (Inr VUndefined, cycle_resolved\<lparr>objs := (objs cycle_resolved)(0 := [''x'' \<mapsto> VNum 1])\<rparr>)"
proof -
  let ?s' = "cycle_resolved\<lparr>objs := (objs cycle_resolved)(0 := [''x'' \<mapsto> VNum 1])\<rparr>"
  have i: "registry cycle_resolved ServiceA = Some 0" "initialized (items cycle_resolved 0)"
    "instance_slot (items cycle_resolved 0) = VObj 2" "objs cycle_resolved 0 = Map.empty"
    "objs cycle_resolved 2 ''x'' = None"
    by (simp_all add: cycle_resolved_def cycle_state_def ServiceA_def ServiceB_def evaluation)
  have i': "registry ?s' ServiceA = Some 0" "initialized (items ?s' 0)"
    "instance_slot (items ?s' 0) = VObj 2"
    using i by simp_all
  from deferred_write_stays_on_reference[OF i(1-3), of 0 0 "''x''" "VNum 1"]
    deferred_write_stays_on_reference[OF i', of 0 0 "''x''" "VNum 1"] i
  show ?thesis by (simp add: own_property_def numeral_2_eq_2)
qed

text \<open>
  C3. Singleton idempotence, as the code has it. Let the first \<^verbatim>\<open>get(X)\<close> with \<^verbatim>\<open>singleton\<close> true
  on a store item not yet initialized return \<open>v\<close>. Then line 100 has called the factory once and
  stored \<open>v\<close> once, and after any further calls whatsoever (\<open>X\<close> is not registered again) these two
  counts and the stored value are the same: the factory is not called again. When \<open>v\<close> is truthy
  (every object is), each later singleton \<^verbatim>\<open>get(X)\<close> returns \<open>v\<close> itself and changes nothing.
\<close>

theorem singleton_idempotence:
  assumes X: "registry s X = Some a" and un: "\<not> initialized (items s a)"
    and sing: "singleton options" and sing': "singleton options'"
    and g: "get n X options s = Some (Inr v, s1)"
    and later: "exec_all cs s1 = Some s2"
  shows "calls a s2 = Suc (calls a s) \<and> stores a s2 = Suc (stores a s) \<and>
         instance_slot (items s2 a) = v \<and>
         (truthy v \<longrightarrow> get (Suc m) X options' s2 = Some (Inr v, s2))"
proof -
  from X un sing g obtain k s' where
    it: "items s' a = (items s a)\<lparr>initialized := True\<rparr>"
    and c: "calls a s' = Suc (calls a s)" and st: "stores a s' = stores a s"
    and reg: "registry s' = registry s"
    and s1: "s1 = log (Stored a) (set_instance a v s')"
    by (rule first_resolution) simp
  have i1: "items s1 a = (items s a)\<lparr>initialized := True, instance_slot := v\<rparr>"
    and c1: "calls a s1 = Suc (calls a s)" and st1: "stores a s1 = Suc (stores a s)"
    and r1: "registry s1 = registry s"
    using it c st reg by (simp_all add: s1 log_def set_instance_def calls_def stores_def)
  from later have ev: "evolves s1 s2" by (rule exec_all_evolves)
  from i1 have "initialized (items s1 a)" by simp
  note fr = evolves_initialized[OF ev this]
  from evolves_registry[OF ev] r1 X have "lookup X s2 = Inr a" by (simp add: lookup_Some)
  with fr(1) i1 sing' have "truthy v \<Longrightarrow> get (Suc m) X options' s2 = Some (Inr v, s2)"
    by (simp add: get_Suc get_body_def)
  with fr c1 st1 i1 show ?thesis by simp
qed

text \<open>
  The \<^verbatim>\<open>MyService\<close> of the README satisfies the hypotheses: the first call builds object 0, a
  transient call follows and builds object 1, and the next singleton call returns object 0.
\<close>

theorem singleton_idempotence_witness:
  "exec_all [(3, CallGet MyService transient_options)] my_service_resolved = Some my_service_later \<and>
   get (Suc 0) MyService default_options my_service_later = Some (Inr (VObj 0), my_service_later) \<and>
   calls 0 my_service_later = 1 \<and> stores 0 my_service_later = 1"
proof -
  have 1: "registry my_service_state MyService = Some 0"
    and 2: "\<not> initialized (items my_service_state 0)"
    and 3: "singleton default_options"
    and 5: "calls 0 my_service_state = 0" "stores 0 my_service_state = 0"
    by (simp_all add: my_service_state_def add_def new_injector_def default_options_def calls_def stores_def)
  have 4: "exec_all [(3, CallGet MyService transient_options)] my_service_resolved = Some my_service_later"
    using my_service_later_eval by (simp add: get_def)
  from singleton_idempotence[OF 1 2 3 3 my_service_first 4, of 0] 4 5 show ?thesis
    by simp
qed

text \<open>
  The claim without the restriction to truthy values fails: line 70 tests
  \<^verbatim>\<open>if (storeItem.instance)\<close>, so a stored empty string is taken for an empty slot and the
  second call returns a deferred reference.
\<close>

theorem singleton_idempotence_counterexample:
  "resolve_twice 2 (Ctor 0 ''String'') empty_string_state = Some (VStr '''', VProxy 0 (Ctor 0 ''String''))"
  by (simp add: resolve_twice_def empty_string_state_def add_def new_injector_def eval_nat_numeral
      get_Suc run_Suc get_body_def run_body_def and_then_def lookup_eq log_def
      set_initialized_def set_instance_def new_proxy_def Let_def default_options_def)




text \<open>
  C5. After \<^verbatim>\<open>add(fac, Key, Tok)\<close> and any calls, the registry still binds \<open>Key\<close> and \<open>Tok\<close> to the
  one store item created by that registration, so both resolutions read the same
  \<^verbatim>\<open>initialized\<close> flag and the same slot. \<^verbatim>\<open>get(Key, options)\<close> and \<^verbatim>\<open>get(Tok, options)\<close> are then
  the same call (same result, same effect) in every state but one: when the item is initialized
  and its slot holds a falsy value, each singleton call returns a deferred reference for the
  identifier it was given. In particular, once the item holds a truthy instance, both return it.
\<close>

theorem dual_identifier_aliasing:
  assumes "exec_all cs (add fac Key (Some Tok) s) = Some s'"
  shows "registry s' Key = Some (next_item s) \<and> registry s' Tok = Some (next_item s) \<and>
         factory (items s' (next_item s)) = fac \<and>
         ((initialized (items s' (next_item s)) \<longrightarrow> truthy (instance_slot (items s' (next_item s))))
            \<longrightarrow> get n Key options s' = get n Tok options s') \<and>
         (initialized (items s' (next_item s)) \<and> truthy (instance_slot (items s' (next_item s)))
            \<and> singleton options \<longrightarrow>
            get (Suc m) Key options s' = Some (Inr (instance_slot (items s' (next_item s))), s') \<and>
            get (Suc m) Tok options s' = Some (Inr (instance_slot (items s' (next_item s))), s'))"
proof -
  let ?a = "next_item s"
  from assms have ev: "evolves (add fac Key (Some Tok) s) s'" by (rule exec_all_evolves)
  then have k: "registry s' Key = Some ?a" and t: "registry s' Tok = Some ?a"
    by (simp_all add: evolves_registry add_registry_key add_registry_token)
  from ev have "factory (items s' ?a) = factory (items (add fac Key (Some Tok) s) ?a)"
    by (simp add: evolves_def item_evolves_def)
  then have f: "factory (items s' ?a) = fac" by (simp add: add_items_new)
  have "get n Key options s' = get n Tok options s'"
    if "initialized (items s' ?a) \<longrightarrow> truthy (instance_slot (items s' ?a))"
    using k t that by (intro get_alias) auto
  moreover have "get (Suc m) Key options s' = Some (Inr (instance_slot (items s' ?a)), s') \<and>
            get (Suc m) Tok options s' = Some (Inr (instance_slot (items s' ?a)), s')"
    if "initialized (items s' ?a) \<and> truthy (instance_slot (items s' ?a)) \<and> singleton options"
    using k t that by (simp add: get_Suc get_body_def lookup_Some)
  ultimately show ?thesis using k t f by blast
qed

text \<open>
  \<^verbatim>\<open>MyService\<close> registered with a token and resolved once by its constructor satisfies the
  hypothesis: both identifiers then return object 0.
\<close>

theorem dual_identifier_aliasing_witness:
  "exec_all [(3, CallGet MyService default_options)] token_state = Some token_resolved \<and>
   registry token_resolved MyService = Some 0 \<and> registry token_resolved MY_TOKEN = Some 0 \<and>
   get (Suc 0) MyService default_options token_resolved = Some (Inr (VObj 0), token_resolved) \<and>
   get (Suc 0) MY_TOKEN default_options token_resolved = Some (Inr (VObj 0), token_resolved)"
proof -
  have g: "get 3 MyService default_options token_state = Some (Inr (VObj 0), token_resolved)"
    by (simp add: token_resolved_def token_state_def MyService_def MY_TOKEN_def evaluation)
  then have e: "exec_all [(3, CallGet MyService default_options)]
                  (add (\<lambda>_. New [] Return) MyService (Some MY_TOKEN) new_injector) = Some token_resolved"
    by (simp add: get_def token_state_def)
  have i: "initialized (items token_resolved 0)" "instance_slot (items token_resolved 0) = VObj 0"
    "next_item new_injector = 0" "singleton default_options"
    by (simp_all add: token_resolved_def token_state_def MyService_def MY_TOKEN_def evaluation)
  from dual_identifier_aliasing[OF e, where options = default_options and m = 0 and n = 1] i e show ?thesis
    by (simp add: token_state_def)
qed

text \<open>
  The claim as it stands fails for a falsy instance: with the factory that returns the empty
  string, \<^verbatim>\<open>get(String)\<close> returns the string and \<^verbatim>\<open>get(MY_TOKEN)\<close> after it a deferred reference.
\<close>

theorem dual_identifier_aliasing_counterexample:
  "resolve_both 2 (Ctor 0 ''String'') (Token 1 ''MyToken'') empty_string_state
     = Some (VStr '''', VProxy 0 (Token 1 ''MyToken''))"
  by (simp add: resolve_both_def empty_string_state_def evaluation)

text \<open>
  C6. Let \<^verbatim>\<open>add(fac, key, token)\<close> create a store item in any state that a session of
  registrations, resolutions and uses of references has reached from a new injector, and let any
  two such sessions follow. The item starts not initialized, with the factory \<open>fac\<close> and an empty
  slot, and with no call and no store in its history. At every later time its factory is \<open>fac\<close>.
  The flag has been set by line 98 exactly when line 100 has called the factory, which happened
  at most once; the slot has been assigned by line 100 at most once, and holds \<^verbatim>\<open>null\<close> as long as
  it has not; neither count ever decreases. Once the item is seen initialized between two steps
  of a session, the whole item (flag, factory and slot) stays as it is.
\<close>

theorem store_item_lifecycle:
  assumes reach: "session ops0 new_injector = Some s"
    and s1: "session ops1 (add fac key token s) = Some s1"
    and s2: "session ops2 s1 = Some s2"
  shows "items (add fac key token s) (next_item s)
           = \<lparr>initialized = False, factory = fac, instance_slot = VNull\<rparr> \<and>
         calls (next_item s) (add fac key token s) = 0 \<and>
         stores (next_item s) (add fac key token s) = 0 \<and>
         factory (items s1 (next_item s)) = fac \<and> factory (items s2 (next_item s)) = fac \<and>
         (initialized (items s1 (next_item s)) \<longrightarrow> items s2 (next_item s) = items s1 (next_item s)) \<and>
         calls (next_item s) s1 \<le> calls (next_item s) s2 \<and>
         stores (next_item s) s1 \<le> stores (next_item s) s2 \<and>
         calls (next_item s) s2 \<le> 1 \<and> stores (next_item s) s2 \<le> 1 \<and>
         (initialized (items s2 (next_item s)) \<longleftrightarrow> calls (next_item s) s2 = 1) \<and>
         (stores (next_item s) s2 = 0 \<longrightarrow> instance_slot (items s2 (next_item s)) = VNull)"
proof -
  let ?a = "next_item s" and ?s0 = "add fac key token s"
  have ok: "history_ok s"
    using history_ok_new_injector reach by (rule session_history_ok)
  have new: "items ?s0 ?a = \<lparr>initialized = False, factory = fac, instance_slot = VNull\<rparr>"
    by (rule add_items_new)
  have ok0: "history_ok ?s0" using ok by (rule history_ok_add)
  from history_ok_item[OF ok0, of ?a] new
  have fresh: "calls ?a ?s0 = 0" "stores ?a ?s0 = 0" by simp_all
  have a0: "?a < next_item ?s0" by (simp add: add_next_item)
  from session_item_kept[OF s1 a0] have k1: "item_kept ?a ?s0 s1" and a1: "?a < next_item s1"
    by simp_all
  from session_item_kept[OF s2 a1] have k2: "item_kept ?a s1 s2" by simp
  from k1 new have f1: "factory (items s1 ?a) = fac" by (simp add: item_kept_def)
  with k2 have f2: "factory (items s2 ?a) = fac" by (simp add: item_kept_def)
  from k2 have frozen: "initialized (items s1 ?a) \<longrightarrow> items s2 ?a = items s1 ?a"
    and mono: "calls ?a s1 \<le> calls ?a s2" "stores ?a s1 \<le> stores ?a s2"
    by (simp_all add: item_kept_def)
  have "history_ok s2"
    using session_history_ok[OF session_history_ok[OF ok0 s1] s2] .
  from history_ok_item[OF this, of ?a]
  have h: "calls ?a s2 \<le> 1" "stores ?a s2 \<le> 1" "initialized (items s2 ?a) \<longleftrightarrow> calls ?a s2 = 1"
    "stores ?a s2 = 0 \<longrightarrow> instance_slot (items s2 ?a) = VNull"
    by (auto split: if_splits)
  from new fresh f1 f2 frozen mono h show ?thesis by blast
qed

text \<open>
  The \<^verbatim>\<open>MyService\<close> of the README on a new injector, resolved once and then once more,
  satisfies the hypotheses.
\<close>

theorem store_item_lifecycle_witness:
  "session [] new_injector = Some new_injector \<and>
   session [Perform 3 (CallGet MyService default_options)] my_service_state = Some my_service_resolved \<and>
   session [Perform 1 (CallGet MyService default_options)] my_service_resolved = Some my_service_resolved \<and>
   items my_service_resolved 0 = items my_service_state 0\<lparr>initialized := True, instance_slot := VObj 0\<rparr> \<and>
   calls 0 my_service_resolved = 1 \<and> stores 0 my_service_resolved = 1"
proof -
  have e1: "session [Perform 3 (CallGet MyService default_options)]
              (add (\<lambda>_. New [] Return) MyService None new_injector) = Some my_service_resolved"
    using my_service_first by (simp add: get_def my_service_state_def)
  have "get 1 MyService default_options my_service_resolved = Some (Inr (VObj 0), my_service_resolved)"
    by (simp add: my_service_resolved_def my_service_state_def MyService_def evaluation)
  then have e2: "session [Perform 1 (CallGet MyService default_options)] my_service_resolved
                   = Some my_service_resolved"
    by (simp add: get_def)
  have i: "items my_service_resolved 0
             = items my_service_state 0\<lparr>initialized := True, instance_slot := VObj 0\<rparr>"
    "next_item new_injector = 0"
    by (simp_all add: my_service_resolved_def my_service_state_def MyService_def evaluation)
  have c: "calls 0 my_service_resolved = 1" "stores 0 my_service_resolved = 1"
    by (simp_all add: calls_def stores_def my_service_resolved_def my_service_state_def MyService_def
        evaluation)
  have e0: "session [] new_injector = Some new_injector" by simp
  from store_item_lifecycle[OF e0 e1 e2] e1 e2 i c
  show ?thesis by (simp add: my_service_state_def)
qed

text \<open>
  C7. \<^verbatim>\<open>get\<close> on an identifier that is not in the registry throws, without changing the state,
  an \<^verbatim>\<open>Error\<close> whose message names the identifier: \<^verbatim>\<open>Token <desc> is not registered\<close> for a token
  (thrown by \<^verbatim>\<open>InjectionToken.find\<close>), \<^verbatim>\<open><Key> is not registered\<close> otherwise.
\<close>

theorem unregistered_lookup:
  assumes "registry s Key = None"
  shows "get (Suc n) Key options s =
           Some (Inl (Error ((case Key of Token _ desc \<Rightarrow> ''Token '' @ desc | Ctor _ src \<Rightarrow> src)
                             @ '' is not registered'')), s)"
  using assms by (cases Key) (simp_all add: get_Suc get_body_def token_find_def)

theorem unregistered_lookup_witness:
  "registry new_injector (Token 0 ''Config'') = None \<and>
   get (Suc 0) (Token 0 ''Config'') default_options new_injector =
     Some (Inl (Error ''Token Config is not registered''), new_injector)"
  using unregistered_lookup[of new_injector "Token 0 ''Config''" 0 default_options]
  by (simp add: new_injector_def)

text \<open>
  C8, at the input where the code departs from it. On a deferred reference for \<open>Key\<close>, whose store
  item is initialized: when the slot holds a truthy value that \<^verbatim>\<open>typeof\<close> does not call an
  \<^verbatim>\<open>'object'\<close> (a non-empty string, a number, \<^verbatim>\<open>true\<close>, a function), a read or a write throws
  \<^verbatim>\<open>DI: instance of <Key> not found\<close>. But when the instance has not materialized (the slot is
  \<^verbatim>\<open>null\<close>, or falsy), the test of lines 81 and 89 never fails: \<^verbatim>\<open>get\<close> hands the trap another
  deferred reference, an \<^verbatim>\<open>'object'\<close>, which the trap reads through, and so on. No bound on the
  depth of the calls lets the read or the write return or throw.
\<close>

theorem deferred_use_without_instance:
  assumes "registry s Key = Some a" "initialized (items s a)"
  shows "(truthy (instance_slot (items s a)) \<and> typeof (instance_slot (items s a)) \<noteq> ''object'' \<longrightarrow>
            reflect_get (Suc (Suc n)) (VProxy p Key) prop receiver s
              = Some (Inl (Error (''DI: instance of '' @ to_string Key @ '' not found'')), s) \<and>
            reflect_set (Suc (Suc n)) (VProxy p Key) prop v receiver s
              = Some (Inl (Error (''DI: instance of '' @ to_string Key @ '' not found'')), s)) \<and>
         (\<not> truthy (instance_slot (items s a)) \<longrightarrow>
            (\<forall>k. reflect_get k (VProxy p Key) prop receiver s = None \<and>
                 reflect_set k (VProxy p Key) prop v receiver s = None))"
proof -
  have "reflect_get (Suc (Suc n)) (VProxy p Key) prop receiver s
              = Some (Inl (Error (''DI: instance of '' @ to_string Key @ '' not found'')), s) \<and>
        reflect_set (Suc (Suc n)) (VProxy p Key) prop v receiver s
              = Some (Inl (Error (''DI: instance of '' @ to_string Key @ '' not found'')), s)"
    if "truthy (instance_slot (items s a))" "typeof (instance_slot (items s a)) \<noteq> ''object''"
    using that get_instance[OF assms that(1), of n]
    by (simp add: reflect_get_Suc reflect_set_Suc reflect_get_body_def reflect_set_body_def
        and_then_def instance_not_found_def)
  moreover have "reflect_get k (VProxy p Key) prop receiver s = None \<and>
                 reflect_set k (VProxy p Key) prop v receiver s = None"
    if "\<not> truthy (instance_slot (items s a))" for k
    using deferred_read_never_returns[OF assms that] deferred_write_never_returns[OF assms that]
    by simp
  ultimately show ?thesis by blast
qed

theorem deferred_use_without_instance_witness:
  "get 1 Broken default_options broken_failed = Some (Inr (VProxy 0 Broken), broken_deferred) \<and>
   instance_slot (items broken_deferred 0) = VNull \<and>
   reflect_get 1000 (VProxy 0 Broken) ''name'' (VProxy 0 Broken) broken_deferred = None \<and>
   reflect_set 1000 (VProxy 0 Broken) ''name'' (VStr ''x'') (VProxy 0 Broken) broken_deferred = None"
proof -
  have i: "registry broken_deferred Broken = Some 0" "initialized (items broken_deferred 0)"
    "instance_slot (items broken_deferred 0) = VNull"
    by (simp_all add: broken_deferred_def broken_failed_def broken_state_def Broken_def evaluation)
  from deferred_use_without_instance[OF i(1,2), of 0 0 "''name''" "VProxy 0 Broken" "VStr ''x''"] i(3)
    broken_deferred_eval
  show ?thesis by simp
qed

text \<open>
  C9. Let \<open>key\<close> have been registered with a token \<open>tok\<close>, and any calls have followed. A second
  \<^verbatim>\<open>add(fac2, key, token')\<close> with another token or none creates a new store item (not initialized,
  slot empty, factory \<open>fac2\<close>) at a new address and binds \<open>key\<close> to it. Every other binding of the
  registry is left as it was, \<open>token'\<close> apart, and so is every other store item: \<open>tok\<close> still leads
  to the store item of the first registration, with its factory \<open>fac1\<close>, its flag and its slot;
  a singleton \<^verbatim>\<open>get(tok)\<close> still returns the instance stored there.
\<close>

theorem reregistration_leaves_token_stale:
  assumes old: "exec_all cs (add fac1 key (Some tok) s0) = Some s"
    and tk: "tok \<noteq> key" and tt: "token' \<noteq> Some tok"
  shows "registry (add fac2 key token' s) key = Some (next_item s) \<and>
         items (add fac2 key token' s) (next_item s)
           = \<lparr>initialized = False, factory = fac2, instance_slot = VNull\<rparr> \<and>
         next_item s0 \<noteq> next_item s \<and>
         registry (add fac2 key token' s) tok = Some (next_item s0) \<and>
         lookup tok (add fac2 key token' s) = Inr (next_item s0) \<and>
         items (add fac2 key token' s) (next_item s0) = items s (next_item s0) \<and>
         factory (items (add fac2 key token' s) (next_item s0)) = fac1 \<and>
         (\<forall>K. K \<noteq> key \<and> token' \<noteq> Some K \<longrightarrow> registry (add fac2 key token' s) K = registry s K) \<and>
         (\<forall>a. a \<noteq> next_item s \<longrightarrow> items (add fac2 key token' s) a = items s a) \<and>
         (singleton options \<and> initialized (items s (next_item s0)) \<and>
          truthy (instance_slot (items s (next_item s0))) \<longrightarrow>
            get (Suc m) tok options (add fac2 key token' s)
              = Some (Inr (instance_slot (items s (next_item s0))), add fac2 key token' s))"
proof -
  let ?s' = "add fac2 key token' s" and ?a1 = "next_item s0"
  from old have ev: "evolves (add fac1 key (Some tok) s0) s" by (rule exec_all_evolves)
  have n: "next_item s = Suc ?a1"
    using evolves_next_item[OF ev] by (simp add: add_next_item)
  then have ne: "?a1 \<noteq> next_item s" by simp
  have "registry s tok = Some ?a1"
    using evolves_registry[OF ev] by (simp add: add_registry_token)
  with tk tt have rt: "registry ?s' tok = Some ?a1" by (simp add: add_registry_other)
  then have l: "lookup tok ?s' = Inr ?a1" by (rule lookup_Some)
  have io: "items ?s' ?a1 = items s ?a1" using ne by (simp add: add_items_old)
  have "factory (items s ?a1) = fac1"
    using evolves_factory[OF ev, of ?a1] by (simp add: add_items_new)
  with io have f: "factory (items ?s' ?a1) = fac1" by simp
  have g: "get (Suc m) tok options ?s' = Some (Inr (instance_slot (items s ?a1)), ?s')"
    if "singleton options \<and> initialized (items s ?a1) \<and> truthy (instance_slot (items s ?a1))"
    using that l io by (simp add: get_Suc get_body_def)
  have others: "\<forall>K. K \<noteq> key \<and> token' \<noteq> Some K \<longrightarrow> registry ?s' K = registry s K"
    by (simp add: add_registry_other)
  have olds: "\<forall>a. a \<noteq> next_item s \<longrightarrow> items ?s' a = items s a"
    by (simp add: add_items_old)
  show ?thesis
    using ne rt l io f g others olds by (simp only: add_registry_key add_items_new simp_thms) blast
qed

text \<open>
  \<^verbatim>\<open>MyService\<close> registered with \<open>MY_TOKEN\<close>, resolved, and registered again satisfies the
  hypotheses: the token still returns object 0, the constructor now builds object 1.
\<close>

theorem reregistration_leaves_token_stale_witness:
  "registry reregistered_state MyService = Some 1 \<and>
   registry reregistered_state MY_TOKEN = Some 0 \<and>
   get (Suc 0) MY_TOKEN default_options reregistered_state = Some (Inr (VObj 0), reregistered_state) \<and>
   map_option fst (get 3 MyService default_options reregistered_state) = Some (Inr (VObj 1))"
proof -
  have e: "exec_all [(3, CallGet MyService default_options)]
             (add (\<lambda>_. New [] Return) MyService (Some MY_TOKEN) new_injector) = Some token_resolved"
    using token_resolved_eval by (simp add: get_def token_state_def)
  have i: "MY_TOKEN \<noteq> MyService" "None \<noteq> Some MY_TOKEN" "singleton default_options"
    "next_item new_injector = 0" "next_item token_resolved = 1"
    "initialized (items token_resolved 0)" "instance_slot (items token_resolved 0) = VObj 0"
    by (simp_all add: token_resolved_def token_state_def MyService_def MY_TOKEN_def evaluation)
  have g: "map_option fst (get 3 MyService default_options reregistered_state) = Some (Inr (VObj 1))"
    by (simp add: reregistered_state_def token_resolved_def token_state_def MyService_def MY_TOKEN_def
        evaluation)
  from reregistration_leaves_token_stale[OF e i(1,2), where options = default_options and m = 0
      and ?fac2.0 = "\<lambda>_. New [(''version'', VNum 2)] Return"] i g
  show ?thesis by (simp add: reregistered_state_def)
qed

text \<open>
  C10. Let the first singleton \<^verbatim>\<open>get(X)\<close> on a store item (not initialized, slot empty) throw
  \<open>e\<close>. The identifier is registered, so \<open>e\<close> is what the call of the factory on line 100 threw,
  passed on unchanged. The store item keeps \<^verbatim>\<open>initialized = true\<close> (line 98 is not undone) and its
  empty slot; line 100 has called the factory once and stored nothing. After any further calls
  the item is still so, and every singleton \<^verbatim>\<open>get(X)\<close> returns a new deferred reference and
  changes nothing else: the factory is not called again.
\<close>

theorem failed_construction_is_permanent:
  assumes X: "registry s X = Some a" and un: "\<not> initialized (items s a)"
    and empty: "instance_slot (items s a) = VNull"
    and sing: "singleton options" and sing': "singleton options'"
    and g: "get n X options s = Some (Inl e, s1)"
    and later: "exec_all cs s1 = Some s2"
  shows "(\<exists>k. n = Suc k \<and>
            run k (factory (items s a) (params options)) (log (Called a True) (set_initialized a s))
              = Some (Inl e, s1)) \<and>
         items s2 a = (items s a)\<lparr>initialized := True\<rparr> \<and>
         calls a s2 = Suc (calls a s) \<and> stores a s2 = stores a s \<and>
         get (Suc m) X options' s2 =
           Some (Inr (VProxy (next_obj s2) X),
                 s2\<lparr>objs := (objs s2)(next_obj s2 := Map.empty), next_obj := Suc (next_obj s2)\<rparr>)"
proof -
  from X un sing g obtain k s' where n: "n = Suc k"
    and r: "run k (factory (items s a) (params options)) (log (Called a True) (set_initialized a s))
              = Some (Inl e, s')"
    and it: "items s' a = (items s a)\<lparr>initialized := True\<rparr>"
    and c: "calls a s' = Suc (calls a s)" and st: "stores a s' = stores a s"
    and reg: "registry s' = registry s"
    and s1: "s1 = s'"
    by (rule first_resolution) simp
  from later have ev: "evolves s1 s2" by (rule exec_all_evolves)
  from it s1 have "initialized (items s1 a)" by simp
  note fr = evolves_initialized[OF ev this]
  from evolves_registry[OF ev] reg s1 X have l: "lookup X s2 = Inr a" by (simp add: lookup_Some)
  from fr(1) it s1 empty have i2: "items s2 a = (items s a)\<lparr>initialized := True\<rparr>"
    and "initialized (items s2 a)" "\<not> truthy (instance_slot (items s2 a))"
    by simp_all
  with l sing' have "get (Suc m) X options' s2 =
           Some (Inr (VProxy (next_obj s2) X),
                 s2\<lparr>objs := (objs s2)(next_obj s2 := Map.empty), next_obj := Suc (next_obj s2)\<rparr>)"
    by (simp add: get_Suc get_body_def new_proxy_def)
  moreover from n r s1 have "\<exists>k. n = Suc k \<and>
            run k (factory (items s a) (params options)) (log (Called a True) (set_initialized a s))
              = Some (Inl e, s1)" by simp
  ultimately show ?thesis using i2 fr(2,3) c st s1 by simp
qed

text \<open>
  The throwing factory satisfies the hypotheses: the second call returns a reference, the third
  another one, and the history still has one call and no store.
\<close>

theorem failed_construction_is_permanent_witness:
  "exec_all [(1, CallGet Broken default_options)] broken_failed = Some broken_deferred \<and>
   items broken_deferred 0 = (items broken_state 0)\<lparr>initialized := True\<rparr> \<and>
   calls 0 broken_deferred = 1 \<and> stores 0 broken_deferred = 0 \<and>
   get (Suc 0) Broken default_options broken_deferred =
     Some (Inr (VProxy 1 Broken),
           broken_deferred\<lparr>objs := (objs broken_deferred)(1 := Map.empty), next_obj := Suc 1\<rparr>)"
proof -
  have 1: "registry broken_state Broken = Some 0"
    and 2: "\<not> initialized (items broken_state 0)"
    and 3: "instance_slot (items broken_state 0) = VNull"
    and 4: "singleton default_options"
    and 6: "calls 0 broken_state = 0" "stores 0 broken_state = 0"
    by (simp_all add: broken_state_def add_def new_injector_def default_options_def calls_def stores_def)
  have 5: "exec_all [(1, CallGet Broken default_options)] broken_failed = Some broken_deferred"
    using broken_deferred_eval by (simp add: get_def)
  have 7: "next_obj broken_deferred = 1"
    by (simp add: broken_deferred_def broken_failed_def broken_state_def Broken_def evaluation)
  from failed_construction_is_permanent[OF 1 2 3 4 4 broken_first 5, of 0] 5 6 7 show ?thesis
    by simp
qed

end
